theory Spec2Isabelle
  imports Complex_Main "HOL-Library.Word" "HOL-Library.AList"
begin

section \<open>Scrollback history: the class RingBuffer\<close>

text \<open>
  A Node Buffer is a fixed-length array of bytes.  Chunks handed to \<open>append\<close> are strings
  or Buffers; \<open>Buffer.from(String(input), 'utf8')\<close> turns a string into its UTF-8 bytes,
  so a chunk is modelled by the byte sequence \<open>b\<close> that \<open>append\<close> works on.
  All lengths and offsets are far below \<open>2^53\<close> and are natural numbers here; the lemma
  \<open>RingBuffer_append_inv\<close> below shows that \<open>len \<le> limit\<close> and \<open>start < limit\<close> are
  kept, so every subtraction of the source is taken on a non-negative result.
\<close>

type_synonym byte = "8 word"

record RingBuffer =
  buf :: "byte list"
  limit :: nat
  start :: nat
  len :: nat

text \<open>
  \<open>src.copy(target, targetStart, sourceStart, sourceEnd)\<close>: the bytes
  \<open>src[sourceStart ..< sourceEnd]\<close> overwrite \<open>target\<close> from \<open>targetStart\<close> on; what does not
  fit into the target is not copied, and the target keeps its length.
\<close>

definition buffer_copy :: "byte list \<Rightarrow> byte list \<Rightarrow> nat \<Rightarrow> nat \<Rightarrow> nat \<Rightarrow> byte list" where
  "buffer_copy src target targetStart sourceStart sourceEnd =
     (let chunk = take (sourceEnd - sourceStart) (drop sourceStart src);
          n = min (length chunk) (length target - targetStart)
      in take targetStart target @ take n chunk @ drop (targetStart + n) target)"

text \<open>\<open>b.slice(from, to)\<close>, clipped to the buffer as Node does.\<close>

definition buffer_slice :: "byte list \<Rightarrow> nat \<Rightarrow> nat \<Rightarrow> byte list" where
  "buffer_slice b from to = take (to - from) (drop from b)"

text \<open>
  The constructor.  \<open>Buffer.allocUnsafe\<close> returns memory that is not cleared: the initial
  content is whatever was there, given here by \<open>garbage\<close> (byte \<open>i\<close> of the fresh buffer is
  \<open>garbage i\<close>).
\<close>

definition RingBuffer_new :: "(nat \<Rightarrow> byte) \<Rightarrow> nat \<Rightarrow> RingBuffer" where
  "RingBuffer_new garbage limitBytes =
     \<lparr>buf = map garbage [0..<limitBytes], limit = limitBytes, start = 0, len = 0\<rparr>"

text \<open>
  \<open>append\<close>.  The remainder \<open>%\<close> is only reached when \<open>length b < limit\<close>, hence with a
  positive \<open>limit\<close>.
\<close>

definition RingBuffer_append :: "RingBuffer \<Rightarrow> byte list \<Rightarrow> RingBuffer" where
  "RingBuffer_append rb b =
     (if length b \<ge> limit rb then
        rb\<lparr>buf := buffer_copy b (buf rb) 0 (length b - limit rb) (length b),
           start := 0, len := limit rb\<rparr>
      else
        let free = limit rb - len rb;
            rb1 = (if length b > free
                   then rb\<lparr>start := (start rb + (length b - free)) mod limit rb, len := limit rb\<rparr>
                   else rb\<lparr>len := len rb + length b\<rparr>);
            writePos = (start rb1 + len rb1 - length b) mod limit rb1;
            firstPart = min (length b) (limit rb1 - writePos);
            buf1 = buffer_copy b (buf rb1) writePos 0 firstPart;
            buf2 = (if firstPart < length b
                    then buffer_copy b buf1 0 firstPart (length b) else buf1)
        in rb1\<lparr>buf := buf2\<rparr>)"

text \<open>
  \<open>toString\<close>, up to the final decoding: the function returns the bytes that the source
  hands to \<open>.toString(enc)\<close> (the empty sequence where the source returns \<open>''\<close>).
\<close>

definition RingBuffer_toString :: "RingBuffer \<Rightarrow> byte list" where
  "RingBuffer_toString rb =
     (if len rb = 0 then []
      else if start rb + len rb \<le> limit rb
        then buffer_slice (buf rb) (start rb) (start rb + len rb)
      else
        let tailLen = (start rb + len rb) - limit rb
        in buffer_slice (buf rb) (start rb) (limit rb) @ buffer_slice (buf rb) 0 tailLen)"

section \<open>Admission control: createBucket\<close>

text \<open>
  \<open>createBucket(capacity, refillRate)\<close> returns a closure over \<open>tokens\<close> and \<open>last\<close>; the
  record below is that closure's environment.  \<open>Date.now()\<close> is an integer number of
  milliseconds and is passed in by the caller of the model (\<open>now\<close>).  JavaScript numbers are
  doubles; the token arithmetic is modelled with exact real arithmetic.  The argument \<open>n\<close>
  of \<open>take\<close> is a number of tokens: the only call of the server passes
  \<open>Buffer.byteLength(String(data), 'utf8')\<close>, a natural number.
\<close>

record bucket =
  capacity :: real
  refillRate :: real
  tokens :: real
  last_ms :: int

definition createBucket :: "real \<Rightarrow> real \<Rightarrow> int \<Rightarrow> bucket" where
  "createBucket cap rate now = \<lparr>capacity = cap, refillRate = rate, tokens = cap, last_ms = now\<rparr>"

definition bucket_take :: "bucket \<Rightarrow> int \<Rightarrow> nat \<Rightarrow> bool \<times> bucket" where
  "bucket_take bk now n =
     (let delta = now - last_ms bk;
          bk1 = (if delta > 0
                 then bk\<lparr>tokens := min (capacity bk)
                                      (tokens bk + (real_of_int delta / 1000) * refillRate bk),
                         last_ms := now\<rparr>
                 else bk)
      in if tokens bk1 \<ge> real n then (True, bk1\<lparr>tokens := tokens bk1 - real n\<rparr>)
         else (False, bk1))"


section \<open>The server state\<close>

text \<open>
  Identifiers (session uuids, socket ids, room names) and session names are strings.
  Terminal data (the chunks a pseudo-terminal emits, the keystrokes a client sends) are
  JavaScript strings; they are represented by their UTF-8 encoding, so that
  \<open>Buffer.byteLength(String(data), 'utf8')\<close> is \<open>length data\<close> and
  \<open>Buffer.from(String(d), 'utf8')\<close> is \<open>d\<close> itself.  The payload of a \<open>history\<close> event is
  the string decoded from the snapshot bytes; it is represented by those bytes, and its
  test \<open>h.length\<close> by their being non-empty (decoding a non-empty byte sequence never gives
  the empty string).  Console output is not modelled.
\<close>

type_synonym ident = string

text \<open>
  The result of \<open>Number(v)\<close> for a payload value \<open>v\<close>: not a number, a finite number or an
  infinity.  Comparisons with \<open>NaN\<close> are false; \<open>x || d\<close> is \<open>d\<close> when \<open>x\<close> is \<open>NaN\<close> or zero.
\<close>

datatype jsnum = NaN | Num real | PosInf | NegInf

fun js_or :: "jsnum \<Rightarrow> real \<Rightarrow> jsnum" where
  "js_or NaN d = Num d"
| "js_or (Num x) d = (if x = 0 then Num d else Num x)"
| "js_or PosInf d = PosInf"
| "js_or NegInf d = NegInf"

fun js_less :: "jsnum \<Rightarrow> real \<Rightarrow> bool" where
  "js_less NaN c = False"
| "js_less (Num x) c = (x < c)"
| "js_less PosInf c = False"
| "js_less NegInf c = True"

fun js_greater :: "jsnum \<Rightarrow> real \<Rightarrow> bool" where
  "js_greater NaN c = False"
| "js_greater (Num x) c = (x > c)"
| "js_greater PosInf c = True"
| "js_greater NegInf c = False"

text \<open>
  The pseudo-terminal is an external capability.  A session's \<open>pty\<close> is the sequence of
  calls the server has made on it.  Whether a call raises is decided outside the server
  and is an input of the handler that makes the call.
\<close>

datatype pty_call = Write "byte list" | Resize jsnum jsnum | Kill

record session =
  session_id :: ident
  name :: string
  pty :: "pty_call list"
  history :: RingBuffer

text \<open>What a client receives; \<open>CreateAck\<close> is the call of the \<open>create-session\<close> callback.\<close>

datatype server_event =
    SessionsList "(ident \<times> string) list"
  | SessionCreated ident string
  | SessionClosed ident string
  | Output "byte list"
  | History "byte list"
  | CreateAck ident string

text \<open>
  A connected socket: its rooms (a JavaScript \<open>Set\<close>, in insertion order), the bucket its
  handlers close over, and the events emitted to it so far, oldest first.
\<close>

record socket =
  rooms :: "ident list"
  bucket :: bucket
  outbox :: "server_event list"

text \<open>
  Session objects live on the heap and are shared by reference between the \<open>sessions\<close> map
  and the callbacks of their pseudo-terminal: \<open>heap\<close> maps a reference to the object,
  references below \<open>next_ref\<close> are allocated.  \<open>sessions\<close> is the \<open>Map\<close> from id to session
  object, in insertion order; \<open>sockets\<close> are the connected sockets; \<open>timers\<close> are the pending
  start-up timers.
\<close>

record server =
  heap :: "nat \<Rightarrow> session"
  next_ref :: nat
  sessions :: "(ident \<times> nat) list"
  sockets :: "(ident \<times> socket) list"
  timers :: "nat list"

definition HISTORY_LIMIT :: nat where
  "HISTORY_LIMIT = 1024 * 512"

definition init_server :: server where
  "init_server =
     \<lparr>heap = (\<lambda>_. \<lparr>session_id = [], name = [], pty = [],
                      history = RingBuffer_new (\<lambda>_. 0) 0\<rparr>),
      next_ref = 0, sessions = [], sockets = [], timers = []\<rparr>"

subsection \<open>Emitting\<close>

definition emit_to :: "(ident \<Rightarrow> socket \<Rightarrow> bool) \<Rightarrow> server_event \<Rightarrow> server \<Rightarrow> server" where
  "emit_to P ev sv =
     sv\<lparr>sockets := map (\<lambda>(c, sk). if P c sk then (c, sk\<lparr>outbox := outbox sk @ [ev]\<rparr>)
                                  else (c, sk)) (sockets sv)\<rparr>"

text \<open>\<open>io.emit\<close>, \<open>io.to(room).emit\<close> and \<open>socket.emit\<close>.\<close>

definition io_emit :: "server_event \<Rightarrow> server \<Rightarrow> server" where
  "io_emit = emit_to (\<lambda>_ _. True)"

definition io_to_emit :: "ident \<Rightarrow> server_event \<Rightarrow> server \<Rightarrow> server" where
  "io_to_emit room = emit_to (\<lambda>_ sk. room \<in> set (rooms sk))"

definition socket_emit :: "ident \<Rightarrow> server_event \<Rightarrow> server \<Rightarrow> server" where
  "socket_emit c = emit_to (\<lambda>k _. k = c)"

definition update_socket :: "ident \<Rightarrow> (socket \<Rightarrow> socket) \<Rightarrow> server \<Rightarrow> server" where
  "update_socket c f sv =
     sv\<lparr>sockets := map (\<lambda>(k, sk). if k = c then (k, f sk) else (k, sk)) (sockets sv)\<rparr>"

definition pty_do :: "nat \<Rightarrow> pty_call \<Rightarrow> server \<Rightarrow> server" where
  "pty_do r call sv = sv\<lparr>heap := (heap sv)(r := (heap sv r)\<lparr>pty := pty (heap sv r) @ [call]\<rparr>)\<rparr>"

text \<open>\<open>Array.from(sessions.values()).map(s => ({ id: s.id, name: s.name }))\<close>\<close>

definition listSessions :: "server \<Rightarrow> (ident \<times> string) list" where
  "listSessions sv = map (\<lambda>(_, r). (session_id (heap sv r), name (heap sv r))) (sessions sv)"


subsection \<open>Session names: getNextSessionNumber\<close>

text \<open>
  A name is built by the template literal \<open>`Session ${sessionNumber}`\<close>, which prints the
  number in decimal, and read back by \<open>s.name.match(/^Session (\d+)$/)\<close> followed by
  \<open>parseInt(match[1], 10)\<close>.  The numbers are bounded by the number of sessions and stay
  far below \<open>2^53\<close>, where printing and parsing are exact.
\<close>

definition digit_char :: "nat \<Rightarrow> char" where
  "digit_char d = ''0123456789'' ! d"

fun show_nat :: "nat \<Rightarrow> string" where
  "show_nat n = (if n < 10 then [digit_char n] else show_nat (n div 10) @ [digit_char (n mod 10)])"

declare show_nat.simps [simp del]

definition is_digit :: "char \<Rightarrow> bool" where
  "is_digit c = (48 \<le> (of_char c :: nat) \<and> (of_char c :: nat) \<le> 57)"

definition parseInt10 :: "string \<Rightarrow> nat" where
  "parseInt10 ds = foldl (\<lambda>acc c. 10 * acc + ((of_char c :: nat) - 48)) 0 ds"

definition session_number :: "string \<Rightarrow> nat option" where
  "session_number nm =
     (if take 8 nm = ''Session '' \<and> drop 8 nm \<noteq> [] \<and> list_all is_digit (drop 8 nm)
      then Some (parseInt10 (drop 8 nm)) else None)"

text \<open>The loop over the sorted numbers, with \<open>nextNumber\<close> as its state.\<close>

fun scan_gap :: "nat \<Rightarrow> nat list \<Rightarrow> nat" where
  "scan_gap nextNumber [] = nextNumber"
| "scan_gap nextNumber (num # rest) =
     (if num = nextNumber then scan_gap (nextNumber + 1) rest else nextNumber)"

definition usedNumbers :: "server \<Rightarrow> nat list" where
  "usedNumbers sv =
     sort (List.map_filter session_number (map (\<lambda>(_, r). name (heap sv r)) (sessions sv)))"

definition getNextSessionNumber :: "server \<Rightarrow> nat" where
  "getNextSessionNumber sv = scan_gap 1 (usedNumbers sv)"

subsection \<open>createSession\<close>

text \<open>
  The environment supplies the uuid drawn by \<open>uuidv4()\<close>, whether \<open>pty.spawn\<close> succeeds, and
  the uncleared memory of the new history buffer.  The result is the reference of the new
  session object, or \<open>None\<close> for the source's \<open>null\<close>.
\<close>

definition createSession ::
    "server \<Rightarrow> bool \<Rightarrow> ident \<Rightarrow> bool \<Rightarrow> (nat \<Rightarrow> byte) \<Rightarrow> nat option \<times> server" where
  "createSession sv isInitial uuid spawn_ok garbage =
     (if \<not> spawn_ok then (None, sv)
      else
        let sessionNumber = getNextSessionNumber sv;
            session = \<lparr>session_id = uuid, name = ''Session '' @ show_nat sessionNumber,
                       pty = [], history = RingBuffer_new garbage HISTORY_LIMIT\<rparr>;
            r = next_ref sv;
            sv1 = sv\<lparr>heap := (heap sv)(r := session), next_ref := r + 1,
                      sessions := AList.update uuid r (sessions sv)\<rparr>;
            sv2 = io_emit (SessionCreated (session_id session) (name session)) sv1;
            sv3 = (if isInitial then sv2\<lparr>timers := timers sv2 @ [r]\<rparr> else sv2)
        in (Some r, sv3))"

subsection \<open>Handlers\<close>

text \<open>
  A handler either returns or lets an exception escape (to the process-wide
  \<open>uncaughtException\<close> handler, which logs it); both carry the state the handler leaves.
\<close>

datatype outcome = Returned server | Uncaught server

fun state_of :: "outcome \<Rightarrow> server" where
  "state_of (Returned sv) = sv"
| "state_of (Uncaught sv) = sv"

text \<open>\<open>io.on('connection')\<close>; socket ids are unique among connected sockets.\<close>

definition on_connection :: "server \<Rightarrow> ident \<Rightarrow> int \<Rightarrow> outcome" where
  "on_connection sv c now =
     (case map_of (sockets sv) c of
        Some _ \<Rightarrow> Returned sv
      | None \<Rightarrow>
          let sessionList = listSessions sv;
              sk = \<lparr>rooms = [c], bucket = createBucket 32768 16384 now,
                    outbox = [SessionsList sessionList]\<rparr>
          in Returned (sv\<lparr>sockets := sockets sv @ [(c, sk)]\<rparr>))"

definition on_switch_session :: "server \<Rightarrow> ident \<Rightarrow> ident \<Rightarrow> outcome" where
  "on_switch_session sv c sessionId =
     (case map_of (sockets sv) c of
        None \<Rightarrow> Returned sv
      | Some _ \<Rightarrow>
          let sv1 = update_socket c (\<lambda>sk. sk\<lparr>rooms := filter (\<lambda>room. room = c) (rooms sk)\<rparr>) sv
          in case map_of (sessions sv1) sessionId of
               None \<Rightarrow> Returned sv1
             | Some r \<Rightarrow>
                 let sv2 = update_socket c
                             (\<lambda>sk. sk\<lparr>rooms := (if sessionId \<in> set (rooms sk) then rooms sk
                                                 else rooms sk @ [sessionId])\<rparr>) sv1;
                     h = RingBuffer_toString (history (heap sv2 r))
                 in if h \<noteq> [] then Returned (socket_emit c (History h) sv2)
                    else Returned sv2)"

definition on_create_session ::
    "server \<Rightarrow> ident \<Rightarrow> bool \<Rightarrow> ident \<Rightarrow> bool \<Rightarrow> (nat \<Rightarrow> byte) \<Rightarrow> outcome" where
  "on_create_session sv c has_callback uuid spawn_ok garbage =
     (case map_of (sockets sv) c of
        None \<Rightarrow> Returned sv
      | Some _ \<Rightarrow>
          (case createSession sv False uuid spawn_ok garbage of
             (None, sv1) \<Rightarrow> Returned sv1
           | (Some r, sv1) \<Rightarrow>
               if has_callback
               then Returned (socket_emit c (CreateAck (session_id (heap sv1 r))
                                                       (name (heap sv1 r))) sv1)
               else Returned sv1))"

definition on_close_session :: "server \<Rightarrow> ident \<Rightarrow> ident \<Rightarrow> bool \<Rightarrow> outcome" where
  "on_close_session sv c sessionId kill_throws =
     (case map_of (sockets sv) c of
        None \<Rightarrow> Returned sv
      | Some _ \<Rightarrow>
          (case map_of (sessions sv) sessionId of
             None \<Rightarrow> Returned sv
           | Some r \<Rightarrow>
               if kill_throws then Uncaught (pty_do r Kill sv)
               else Returned (pty_do r Kill sv)))"

text \<open>
  \<open>session.pty\<close> is the object returned by \<open>pty.spawn\<close> and is never falsy.  A failing
  \<open>write\<close> is caught and logged.
\<close>

definition on_input :: "server \<Rightarrow> ident \<Rightarrow> ident \<Rightarrow> byte list \<Rightarrow> int \<Rightarrow> bool \<Rightarrow> outcome" where
  "on_input sv c sessionId data now write_throws =
     (case map_of (sockets sv) c of
        None \<Rightarrow> Returned sv
      | Some sk \<Rightarrow>
          (case map_of (sessions sv) sessionId of
             None \<Rightarrow> Returned sv
           | Some r \<Rightarrow>
               let bytes = length data;
                   (admitted, bk) = bucket_take (bucket sk) now bytes;
                   sv1 = update_socket c (\<lambda>s. s\<lparr>bucket := bk\<rparr>) sv
               in if \<not> admitted then Returned sv1
                  else Returned (pty_do r (Write data) sv1)))"

definition on_resize :: "server \<Rightarrow> ident \<Rightarrow> ident \<Rightarrow> jsnum \<Rightarrow> jsnum \<Rightarrow> bool \<Rightarrow> outcome" where
  "on_resize sv c sessionId cols0 rows0 resize_throws =
     (case map_of (sockets sv) c of
        None \<Rightarrow> Returned sv
      | Some _ \<Rightarrow>
          (case map_of (sessions sv) sessionId of
             None \<Rightarrow> Returned sv
           | Some r \<Rightarrow>
               let cols = js_or cols0 80;
                   rows = js_or rows0 30
               in if js_less cols 40 \<or> js_greater cols 1000 \<or> js_less rows 10 \<or> js_greater rows 400
                  then Returned sv
                  else Returned (pty_do r (Resize cols rows) sv)))"

text \<open>On \<open>disconnect\<close> the handler only logs; the transport drops the socket.\<close>

definition on_disconnect :: "server \<Rightarrow> ident \<Rightarrow> outcome" where
  "on_disconnect sv c = Returned (sv\<lparr>sockets := AList.delete c (sockets sv)\<rparr>)"

text \<open>
  The callbacks of the pseudo-terminal of the session object \<open>r\<close>; they close over the
  object, not over its id.  Only an allocated object has a pseudo-terminal.
\<close>

definition on_pty_data :: "server \<Rightarrow> nat \<Rightarrow> byte list \<Rightarrow> outcome" where
  "on_pty_data sv r d =
     (if \<not> r < next_ref sv then Returned sv
      else
        let session = heap sv r;
            sv1 = sv\<lparr>heap := (heap sv)(r := session\<lparr>history := RingBuffer_append (history session) d\<rparr>)\<rparr>
        in Returned (io_to_emit (session_id session) (Output d) sv1))"

definition on_pty_exit :: "server \<Rightarrow> nat \<Rightarrow> outcome" where
  "on_pty_exit sv r =
     (if \<not> r < next_ref sv then Returned sv
      else
        let session = heap sv r;
            sv1 = sv\<lparr>sessions := AList.delete (session_id session) (sessions sv)\<rparr>
        in Returned (io_emit (SessionClosed (session_id session) (name session)) sv1))"

text \<open>The timer set by \<open>createSession(true)\<close>; a failing \<open>write\<close> is caught and logged.\<close>

definition startup_command :: "byte list" where
  "startup_command = map of_char (''cd ~/project/src/ && bash root.sh'' @ [CHR 0x0D])"

definition on_startup_timer :: "server \<Rightarrow> nat \<Rightarrow> bool \<Rightarrow> outcome" where
  "on_startup_timer sv r write_throws =
     (if r \<notin> set (timers sv) then Returned sv
      else Returned (pty_do r (Write startup_command) (sv\<lparr>timers := removeAll r (timers sv)\<rparr>)))"

text \<open>Module load: \<open>if (sessions.size === 0) createSession(true)\<close>.\<close>

definition on_startup :: "server \<Rightarrow> ident \<Rightarrow> bool \<Rightarrow> (nat \<Rightarrow> byte) \<Rightarrow> outcome" where
  "on_startup sv uuid spawn_ok garbage =
     (if sessions sv = [] then Returned (snd (createSession sv True uuid spawn_ok garbage))
      else Returned sv)"

subsection \<open>The event loop\<close>

text \<open>
  Everything the process reacts to.  Handlers run to completion one after the other, in
  the order of the events.
\<close>

datatype event =
    Startup ident bool "nat \<Rightarrow> byte"
  | Connection ident int
  | SwitchSession ident ident
  | CreateSession ident bool ident bool "nat \<Rightarrow> byte"
  | CloseSession ident ident bool
  | Input ident ident "byte list" int bool
  | ResizeRequest ident ident jsnum jsnum bool
  | Disconnect ident
  | PtyData nat "byte list"
  | PtyExit nat
  | StartupTimer nat bool

fun handle :: "server \<Rightarrow> event \<Rightarrow> outcome" where
  "handle sv (Startup uuid spawn_ok garbage) = on_startup sv uuid spawn_ok garbage"
| "handle sv (Connection c now) = on_connection sv c now"
| "handle sv (SwitchSession c sessionId) = on_switch_session sv c sessionId"
| "handle sv (CreateSession c has_callback uuid spawn_ok garbage) =
     on_create_session sv c has_callback uuid spawn_ok garbage"
| "handle sv (CloseSession c sessionId kill_throws) = on_close_session sv c sessionId kill_throws"
| "handle sv (Input c sessionId data now write_throws) =
     on_input sv c sessionId data now write_throws"
| "handle sv (ResizeRequest c sessionId cols rows resize_throws) =
     on_resize sv c sessionId cols rows resize_throws"
| "handle sv (Disconnect c) = on_disconnect sv c"
| "handle sv (PtyData r d) = on_pty_data sv r d"
| "handle sv (PtyExit r) = on_pty_exit sv r"
| "handle sv (StartupTimer r write_throws) = on_startup_timer sv r write_throws"

definition step :: "server \<Rightarrow> event \<Rightarrow> server" where
  "step sv e = state_of (handle sv e)"

definition run :: "server \<Rightarrow> event list \<Rightarrow> server" where
  "run sv evs = foldl step sv evs"

section \<open>Auxiliary notions\<close>

text \<open>The representation invariant of a ring buffer.\<close>

definition RingBuffer_inv :: "RingBuffer \<Rightarrow> bool" where
  "RingBuffer_inv rb \<longleftrightarrow>
     length (buf rb) = limit rb \<and> len rb \<le> limit rb \<and> (start rb < limit rb \<or> start rb = 0)"

text \<open>The last \<open>n\<close> elements of a sequence (all of it when it is shorter).\<close>

definition last_bytes :: "nat \<Rightarrow> 'a list \<Rightarrow> 'a list" where
  "last_bytes n xs = drop (length xs - n) xs"

text \<open>
  The write of \<open>append\<close>: the chunk \<open>b\<close> goes to position \<open>w\<close> of the array \<open>bf\<close> of length
  \<open>L\<close>, in one or two copies.
\<close>

definition ring_write :: "nat \<Rightarrow> byte list \<Rightarrow> nat \<Rightarrow> byte list \<Rightarrow> byte list" where
  "ring_write L bf w b =
     (let firstPart = min (length b) (L - w);
          buf1 = buffer_copy b bf w 0 firstPart
      in if firstPart < length b then buffer_copy b buf1 0 firstPart (length b) else buf1)"

text \<open>What every socket has been sent, and the rooms every socket is in.\<close>

definition outboxes :: "server \<Rightarrow> (ident \<times> server_event list) list" where
  "outboxes sv = map (\<lambda>(k, sk). (k, outbox sk)) (sockets sv)"

definition subscriptions :: "server \<Rightarrow> (ident \<times> ident list) list" where
  "subscriptions sv = map (\<lambda>(k, sk). (k, rooms sk)) (sockets sv)"

text \<open>
  \<open>appended sv sv' k new\<close>: the socket \<open>k\<close> is connected in both states, and its outbox in
  \<open>sv'\<close> is its outbox in \<open>sv\<close> followed by \<open>new\<close>.
\<close>

definition appended :: "server \<Rightarrow> server \<Rightarrow> ident \<Rightarrow> server_event list \<Rightarrow> bool" where
  "appended sv sv' k new \<longleftrightarrow>
     (case (map_of (sockets sv) k, map_of (sockets sv') k) of
        (Some sk, Some sk') \<Rightarrow> outbox sk' = outbox sk @ new
      | _ \<Rightarrow> False)"

text \<open>A number that lies in a closed interval (\<open>NaN\<close> and the infinities lie in none).\<close>

definition in_interval :: "real \<Rightarrow> real \<Rightarrow> jsnum \<Rightarrow> bool" where
  "in_interval lo hi v = (case v of Num x \<Rightarrow> lo \<le> x \<and> x \<le> hi | _ \<Rightarrow> False)"

text \<open>
  The numbers in use: the numeric suffixes of the names of the registered sessions, in the
  order of the registry.
\<close>

definition live_numbers :: "server \<Rightarrow> nat list" where
  "live_numbers sv = List.map_filter (\<lambda>(_, r). session_number (name (heap sv r))) (sessions sv)"

text \<open>
  What holds of the registry in every state the server reaches: references are allocated,
  and the numbers in use are positive and pairwise distinct.
\<close>

definition registry_inv :: "server \<Rightarrow> bool" where
  "registry_inv sv \<longleftrightarrow>
     list_all (\<lambda>(_, r). r < next_ref sv) (sessions sv)
     \<and> distinct (live_numbers sv) \<and> 0 \<notin> set (live_numbers sv)"

text \<open>The uuid an event draws, if it creates a session.\<close>

fun uuid_of :: "event \<Rightarrow> ident option" where
  "uuid_of (Startup uuid _ _) = Some uuid"
| "uuid_of (CreateSession _ _ uuid _ _) = Some uuid"
| "uuid_of _ = None"

text \<open>
  \<open>live_as sv sid r nm\<close>: the id \<open>sid\<close> is registered, to the session object \<open>r\<close> carrying that
  id and the name \<open>nm\<close>, and no other allocated session object carries the id (ids are
  process-unique).
\<close>

definition live_as :: "server \<Rightarrow> ident \<Rightarrow> nat \<Rightarrow> string \<Rightarrow> bool" where
  "live_as sv sid r nm \<longleftrightarrow>
     map_of (sessions sv) sid = Some r \<and> r < next_ref sv
     \<and> session_id (heap sv r) = sid \<and> name (heap sv r) = nm
     \<and> (\<forall>r'<next_ref sv. session_id (heap sv r') = sid \<longrightarrow> r' = r)"

text \<open>Among the events \<open>new\<close> that a step emits, \<open>session-closed\<close> comes from an exit callback only.\<close>

definition closed_only_by_exit :: "server \<Rightarrow> event \<Rightarrow> server_event list \<Rightarrow> bool" where
  "closed_only_by_exit sv e new \<longleftrightarrow>
     (\<forall>i n. SessionClosed i n \<in> set new \<longrightarrow>
        (\<exists>r. e = PtyExit r \<and> r < next_ref sv \<and> i = session_id (heap sv r)))"

text \<open>Every registry entry refers to an allocated session object that carries its key as id.\<close>

definition keys_inv :: "server \<Rightarrow> bool" where
  "keys_inv sv \<longleftrightarrow>
     list_all (\<lambda>(k, r). r < next_ref sv \<and> session_id (heap sv r) = k) (sessions sv)"

section \<open>The ring buffer keeps the tail of the stream\<close>

lemma length_buffer_copy: "length (buffer_copy src target ts ss se) = length target"
  by (auto simp: buffer_copy_def Let_def min_def)

lemma nth_buffer_copy:
  assumes "i < length target"
  shows "buffer_copy src target ts ss se ! i =
     (if ts \<le> i \<and> i < ts + min (se - ss) (length src - ss) then src ! (ss + (i - ts)) else target ! i)"
proof -
  define chunk where "chunk = take (se - ss) (drop ss src)"
  define n where "n = min (length chunk) (length target - ts)"
  have lc: "length chunk = min (se - ss) (length src - ss)"
    by (simp add: chunk_def min.commute)
  have bc: "buffer_copy src target ts ss se = take ts target @ take n chunk @ drop (ts + n) target"
    by (simp add: buffer_copy_def chunk_def n_def Let_def)
  have nle: "n \<le> length chunk" "ts + n \<le> length target \<or> n = 0"
    unfolding n_def by linarith+
  have lt: "length (take ts target) = min ts (length target)" by simp
  consider (lo) "i < ts" | (mid) "ts \<le> i" "i < ts + n" | (hi) "ts + n \<le> i"
    by linarith
  then show ?thesis
  proof cases
    case lo
    then show ?thesis using assms by (simp add: bc nth_append)
  next
    case mid
    then have a: "i - ts < n" "i - ts < length chunk" using nle by linarith+
    then have "chunk ! (i - ts) = src ! (ss + (i - ts))"
      by (auto simp: chunk_def)
    moreover have "i < ts + min (se - ss) (length src - ss)"
      using mid nle unfolding lc by linarith
    moreover have "(take ts target @ take n chunk @ drop (ts + n) target) ! i = chunk ! (i - ts)"
      using mid a assms by (simp add: nth_append)
    ultimately show ?thesis using mid by (simp add: bc)
  next
    case hi
    have "\<not> i < ts + min (se - ss) (length src - ss)"
      using hi assms unfolding n_def lc by linarith
    moreover have "(take ts target @ take n chunk @ drop (ts + n) target) ! i = target ! i"
    proof -
      have "ts \<le> i" "\<not> i - ts < n" "ts + n + (i - ts - n) = i" using hi by linarith+
      then show ?thesis using assms nle(1) by (simp add: nth_append min_absorb2)
    qed
    ultimately show ?thesis by (simp add: bc)
  qed
qed

lemma length_buffer_slice: "length (buffer_slice b f t) = min (t - f) (length b - f)"
  by (simp add: buffer_slice_def)

lemma nth_buffer_slice: "i < t - f \<Longrightarrow> f + i < length b \<Longrightarrow> buffer_slice b f t ! i = b ! (f + i)"
  by (simp add: buffer_slice_def)

lemma length_toString: "RingBuffer_inv rb \<Longrightarrow> length (RingBuffer_toString rb) = len rb"
  by (auto simp: RingBuffer_toString_def RingBuffer_inv_def Let_def length_buffer_slice)

lemma nth_toString:
  "RingBuffer_inv rb \<Longrightarrow> k < len rb \<Longrightarrow>
   RingBuffer_toString rb ! k = buf rb ! (if start rb + k < limit rb then start rb + k else start rb + k - limit rb)"
  by (auto simp: RingBuffer_toString_def RingBuffer_inv_def Let_def length_buffer_slice nth_append nth_buffer_slice add.commute)

lemma mod_lt2: "x < 2 * (L::nat) \<Longrightarrow> x mod L = (if x < L then x else x - L)"
  using le_mod_geq[of L x] by auto

lemma nth_ring_write:
  assumes "i < length bf" "w < length bf" "length b < length bf"
  shows "ring_write (length bf) bf w b ! i =
     (if w \<le> i \<and> i < w + length b then b ! (i - w)
      else if i + length bf < w + length b then b ! (i + length bf - w)
      else bf ! i)"
proof (cases "w + length b \<le> length bf")
  case True
  then have "min (length b) (length bf - w) = length b" by linarith
  then show ?thesis using assms True
    by (simp add: ring_write_def Let_def nth_buffer_copy)
next
  case False
  let ?L = "length bf" and ?m = "length b"
  have fp: "min ?m (?L - w) = ?L - w" using False by linarith
  have lt: "?L - w < ?m" using False assms by linarith
  have rw: "ring_write (length bf) bf w b = buffer_copy b (buffer_copy b bf w 0 (?L - w)) 0 (?L - w) ?m"
    using lt by (simp add: ring_write_def Let_def fp)
  have n2: "ring_write (length bf) bf w b ! i =
      (if i < ?m - (?L - w) then b ! (?L - w + i) else buffer_copy b bf w 0 (?L - w) ! i)"
    unfolding rw using assms(1) by (subst nth_buffer_copy) (simp_all add: length_buffer_copy)
  have n1: "buffer_copy b bf w 0 (?L - w) ! i = (if w \<le> i then b ! (i - w) else bf ! i)"
  proof -
    have "min (?L - w - 0) (?m - 0) = ?L - w" using lt by linarith
    moreover have "w \<le> i \<Longrightarrow> i < w + (?L - w)" using assms by linarith
    ultimately show ?thesis using assms(1) by (subst nth_buffer_copy) auto
  qed
  show ?thesis
  proof (cases "i < ?m - (?L - w)")
    case True
    then have "\<not> w \<le> i" "i + ?L < w + ?m" "?L - w + i = i + ?L - w"
      using assms by linarith+
    then show ?thesis using True by (simp only: n2 if_True if_False simp_thms)
  next
    case F2: False
    then have a: "\<not> i + ?L < w + ?m" using assms by linarith
    have b: "w \<le> i \<Longrightarrow> i < w + ?m" using assms lt by linarith
    show ?thesis using F2 a b by (simp add: n2 n1)
  qed
qed

lemma write_hit:
  assumes "w < length bf" "length b < length bf" "j < length b"
  shows "ring_write (length bf) bf w b ! ((w + j) mod length bf) = b ! j"
proof -
  have "w + j < 2 * length bf" using assms by linarith
  then have m: "(w + j) mod length bf = (if w + j < length bf then w + j else w + j - length bf)"
    by (rule mod_lt2)
  show ?thesis
  proof (cases "w + j < length bf")
    case True
    then show ?thesis using assms by (simp add: m nth_ring_write)
  next
    case False
    then have "w + j - length bf < length bf" "\<not> w \<le> w + j - length bf"
      "w + j - length bf + length bf < w + length b" "w + j - length bf + length bf - w = j"
      using assms by linarith+
    then show ?thesis using False by (simp add: m nth_ring_write assms)
  qed
qed

lemma write_miss:
  assumes "i < length bf" "w < length bf" "length b < length bf"
    and "\<not> (w \<le> i \<and> i < w + length b)" "\<not> i + length bf < w + length b"
  shows "ring_write (length bf) bf w b ! i = bf ! i"
  using assms by (auto simp: nth_ring_write)

lemma writePos_overflow:
  fixes s n m L :: nat
  assumes "s < L" "n \<le> L" "m < L" "L - n < m"
  shows "((s + (n + m - L)) mod L + L - m) mod L = (s + n) mod L"
proof -
  let ?x = "(s + (n + m - L)) mod L"
  have a: "?x = (if s + (n + m - L) < L then s + (n + m - L) else s + (n + m - L) - L)"
    using assms by (intro mod_lt2) linarith
  have disj: "?x + L - m = s + n \<or> (L \<le> s + n \<and> ?x + L - m = s + n - L)"
  proof (cases "s + (n + m - L) < L")
    case True
    then have "?x = s + (n + m - L)" by (simp only: a if_True)
    then show ?thesis using assms by linarith
  next
    case False
    then have "?x = s + (n + m - L) - L" by (simp only: a if_False)
    then show ?thesis using assms False by linarith
  qed
  then show ?thesis
  proof
    assume "?x + L - m = s + n"
    then show ?thesis by simp
  next
    assume "L \<le> s + n \<and> ?x + L - m = s + n - L"
    then show ?thesis using le_mod_geq[of L "s + n"] by simp
  qed
qed

lemma append_small:
  assumes "RingBuffer_inv rb" "length b < limit rb"
  shows "RingBuffer_append rb b =
     rb\<lparr>start := (start rb + (len rb + length b - limit rb)) mod limit rb,
        len := min (limit rb) (len rb + length b),
        buf := ring_write (limit rb) (buf rb) ((start rb + len rb) mod limit rb) b\<rparr>"
proof -
  let ?L = "limit rb" and ?s = "start rb" and ?n = "len rb" and ?m = "length b"
  have L: "length (buf rb) = ?L" "?n \<le> ?L" "?s < ?L"
    using assms by (auto simp: RingBuffer_inv_def)
  have nle: "\<not> ?L \<le> ?m" using assms(2) by simp
  define rb1 where "rb1 =
     (if ?L - ?n < ?m then rb\<lparr>start := (?s + (?m - (?L - ?n))) mod ?L, len := ?L\<rparr>
      else rb\<lparr>len := ?n + ?m\<rparr>)"
  have raw: "RingBuffer_append rb b =
      rb1\<lparr>buf := ring_write (limit rb1) (buf rb1) ((start rb1 + len rb1 - ?m) mod limit rb1) b\<rparr>"
    unfolding RingBuffer_append_def ring_write_def rb1_def Let_def
    using nle by (simp only: if_False)
  have f: "limit rb1 = ?L" "buf rb1 = buf rb" by (simp_all add: rb1_def)
  have rec: "rb1 = rb\<lparr>start := start rb1, len := len rb1\<rparr>" by (simp add: rb1_def)
  have sl: "start rb1 = (?s + (?n + ?m - ?L)) mod ?L \<and> len rb1 = min ?L (?n + ?m)
      \<and> (start rb1 + len rb1 - ?m) mod ?L = (?s + ?n) mod ?L"
  proof (cases "?L - ?n < ?m")
    case True
    have e1: "?m - (?L - ?n) = ?n + ?m - ?L" using True L by linarith
    have mn: "min ?L (?n + ?m) = ?L" using True L by linarith
    have r: "rb1 = rb\<lparr>start := (?s + (?n + ?m - ?L)) mod ?L, len := ?L\<rparr>"
      unfolding rb1_def e1 using True by (simp only: if_True)
    have wp: "((?s + (?n + ?m - ?L)) mod ?L + ?L - ?m) mod ?L = (?s + ?n) mod ?L"
      using L assms(2) True by (intro writePos_overflow)
    have "start rb1 = (?s + (?n + ?m - ?L)) mod ?L" "len rb1 = ?L" by (simp_all add: r)
    then show ?thesis by (simp only: mn wp simp_thms)
  next
    case False
    have e0: "?n + ?m - ?L = 0" and mn: "min ?L (?n + ?m) = ?n + ?m" using False L by linarith+
    have r: "rb1 = rb\<lparr>len := ?n + ?m\<rparr>"
      unfolding rb1_def using False by (simp only: if_False)
    have a: "start rb1 = ?s" "len rb1 = ?n + ?m" by (simp_all add: r)
    have "?s + (?n + ?m) - ?m = ?s + ?n" by simp
    moreover have "?s mod ?L = ?s" using L by simp
    ultimately show ?thesis by (simp only: a e0 mn add_0_right simp_thms)
  qed
  have step: "RingBuffer_append rb b =
      (rb\<lparr>start := start rb1, len := len rb1\<rparr>)\<lparr>buf :=
         ring_write ?L (buf rb) ((start rb1 + len rb1 - ?m) mod ?L) b\<rparr>"
    using arg_cong[OF rec, of "\<lambda>r. r\<lparr>buf := ring_write ?L (buf rb) ((start rb1 + len rb1 - ?m) mod ?L) b\<rparr>"]
    by (simp only: raw f)
  from sl have s1: "start rb1 = (?s + (?n + ?m - ?L)) mod ?L"
    and l1: "len rb1 = min ?L (?n + ?m)"
    and w1: "(start rb1 + len rb1 - ?m) mod ?L = (?s + ?n) mod ?L"
    by blast+
  show ?thesis
    by (subst step, subst w1, subst s1, subst l1) (rule refl)
qed

lemma length_ring_write: "length (ring_write L bf w b) = length bf"
  by (simp add: ring_write_def Let_def length_buffer_copy)

lemma nth_toString_mod:
  assumes "RingBuffer_inv rb" "k < len rb"
  shows "RingBuffer_toString rb ! k = buf rb ! ((start rb + k) mod limit rb)"
proof -
  have "start rb + k < 2 * limit rb"
    using assms by (auto simp: RingBuffer_inv_def)
  then have "(start rb + k) mod limit rb =
      (if start rb + k < limit rb then start rb + k else start rb + k - limit rb)"
    by (rule mod_lt2)
  then show ?thesis using nth_toString[OF assms] by simp
qed

lemma RingBuffer_append_inv:
  assumes "RingBuffer_inv rb"
  shows "RingBuffer_inv (RingBuffer_append rb b)"
proof (cases "limit rb \<le> length b")
  case True
  then show ?thesis using assms
    by (simp add: RingBuffer_append_def RingBuffer_inv_def length_buffer_copy)
next
  case False
  then have lt: "length b < limit rb" by simp
  then have "0 < limit rb" by simp
  then have "(start rb + (len rb + length b - limit rb)) mod limit rb < limit rb"
    by (rule mod_less_divisor)
  then show ?thesis using assms
    by (simp add: append_small[OF assms lt] RingBuffer_inv_def length_ring_write)
qed

lemma toString_append_big:
  assumes "RingBuffer_inv rb" "limit rb \<le> length b"
  shows "RingBuffer_toString (RingBuffer_append rb b) = drop (length b - limit rb) b"
proof -
  let ?L = "limit rb"
  have L: "length (buf rb) = ?L" using assms by (simp add: RingBuffer_inv_def)
  have "take (length b - (length b - ?L)) (drop (length b - ?L) b) = drop (length b - ?L) b"
    by simp
  moreover have "length (drop (length b - ?L) b) = ?L" using assms(2) by simp
  ultimately have bc: "buffer_copy b (buf rb) 0 (length b - ?L) (length b) = drop (length b - ?L) b"
    using L by (simp add: buffer_copy_def Let_def)
  show ?thesis
  proof (cases "?L = 0")
    case True
    then show ?thesis using assms(2)
      by (simp add: RingBuffer_append_def RingBuffer_toString_def)
  next
    case False
    then show ?thesis using assms(2)
      by (simp add: RingBuffer_append_def RingBuffer_toString_def bc buffer_slice_def)
  qed
qed

lemma toString_append_small:
  assumes inv: "RingBuffer_inv rb" and lt: "length b < limit rb"
  shows "RingBuffer_toString (RingBuffer_append rb b) =
         last_bytes (limit rb) (RingBuffer_toString rb @ b)"
proof (rule nth_equalityI)
  let ?L = "limit rb" and ?s = "start rb" and ?n = "len rb" and ?m = "length b"
  let ?rb' = "RingBuffer_append rb b"
  let ?d = "?n + ?m - ?L"
  let ?w = "(?s + ?n) mod ?L"
  have L: "length (buf rb) = ?L" "?n \<le> ?L" "?s < ?L" "0 < ?L"
    using inv lt by (auto simp: RingBuffer_inv_def)
  have inv': "RingBuffer_inv ?rb'" using inv by (rule RingBuffer_append_inv)
  have f: "start ?rb' = (?s + ?d) mod ?L" "len ?rb' = min ?L (?n + ?m)" "limit ?rb' = ?L"
    "buf ?rb' = ring_write ?L (buf rb) ?w b"
    by (simp_all add: append_small[OF inv lt])
  have ls: "length (RingBuffer_toString rb) = ?n" using inv by (rule length_toString)
  show len_eq: "length (RingBuffer_toString ?rb') = length (last_bytes ?L (RingBuffer_toString rb @ b))"
    using L by (simp add: length_toString[OF inv'] f last_bytes_def ls)
  fix k assume "k < length (RingBuffer_toString ?rb')"
  then have k: "k < min ?L (?n + ?m)" by (simp add: length_toString[OF inv'] f)
  then have kk: "k < len ?rb'" by (simp add: f)
  have wL: "?w < ?L" using L by simp
  have lhs: "RingBuffer_toString ?rb' ! k = ring_write ?L (buf rb) ?w b ! ((?s + (?d + k)) mod ?L)"
    using nth_toString_mod[OF inv' kk] by (simp add: f mod_add_left_eq add.assoc)
  have dk: "?n + ?m - ?L + k < ?n + ?m" using k L by linarith
  have le: "length (RingBuffer_toString rb @ b) - ?L = ?d" by (simp add: ls)
  have "?d \<le> length (RingBuffer_toString rb @ b)" by (simp add: ls)
  then have rhs: "last_bytes ?L (RingBuffer_toString rb @ b) ! k = (RingBuffer_toString rb @ b) ! (?d + k)"
    unfolding last_bytes_def le by (rule nth_drop)
  show "RingBuffer_toString ?rb' ! k = last_bytes ?L (RingBuffer_toString rb @ b) ! k"
  proof (cases "?d + k < ?n")
    case True
    let ?p = "(?s + (?d + k)) mod ?L"
    have old: "(RingBuffer_toString rb @ b) ! (?d + k) = buf rb ! ?p"
      using True by (simp add: nth_append ls nth_toString_mod[OF inv])
    have p: "?p = (if ?s + (?d + k) < ?L then ?s + (?d + k) else ?s + (?d + k) - ?L)"
      using True L by (intro mod_lt2) linarith
    have w: "?w = (if ?s + ?n < ?L then ?s + ?n else ?s + ?n - ?L)"
      using L by (intro mod_lt2) linarith
    have pL: "?p < ?L" using L by simp
    have gap: "?n + ?m \<le> ?L + (?d + k)" by linarith
    have m1: "\<not> (?w \<le> ?p \<and> ?p < ?w + ?m)"
      unfolding p w using True L lt gap by (simp split: if_splits; linarith)
    have m2: "\<not> ?p + ?L < ?w + ?m"
      unfolding p w using True L lt gap by (simp split: if_splits; linarith)
    have "ring_write (length (buf rb)) (buf rb) ?w b ! ?p = buf rb ! ?p"
      using pL wL lt m1 m2 by (intro write_miss) (simp_all add: L(1))
    then show ?thesis by (simp only: lhs rhs old L(1))
  next
    case False
    let ?j = "?d + k - ?n"
    have j: "?j < ?m" using False dk by linarith
    have new: "(RingBuffer_toString rb @ b) ! (?d + k) = b ! ?j"
      using False by (simp add: nth_append ls)
    have e: "?s + ?n + ?j = ?s + (?d + k)" using False by linarith
    have "(?w + ?j) mod ?L = (?s + ?n + ?j) mod ?L"
      by (rule mod_add_left_eq)
    then have "(?w + ?j) mod ?L = (?s + (?d + k)) mod ?L"
      by (simp only: e)
    moreover have "ring_write (length (buf rb)) (buf rb) ?w b ! ((?w + ?j) mod length (buf rb)) = b ! ?j"
      using wL lt j by (intro write_hit) (simp_all add: L(1))
    ultimately show ?thesis by (simp only: lhs rhs new L(1))
  qed
qed

lemma toString_append:
  assumes "RingBuffer_inv rb"
  shows "RingBuffer_toString (RingBuffer_append rb b) =
         last_bytes (limit rb) (RingBuffer_toString rb @ b)"
proof (cases "limit rb \<le> length b")
  case True
  have "length (RingBuffer_toString rb) \<le> limit rb"
    using assms by (simp add: length_toString RingBuffer_inv_def)
  then have "last_bytes (limit rb) (RingBuffer_toString rb @ b) = drop (length b - limit rb) b"
    using True by (simp add: last_bytes_def)
  then show ?thesis using toString_append_big[OF assms True] by simp
next
  case False
  then show ?thesis using assms by (intro toString_append_small) simp_all
qed

lemma limit_append: "limit (RingBuffer_append rb b) = limit rb"
  by (simp add: RingBuffer_append_def Let_def)

lemma last_bytes_last_bytes: "last_bytes n (last_bytes n xs @ ys) = last_bytes n (xs @ ys)"
proof -
  let ?b = "length xs - n"
  have a: "drop ?b xs @ ys = drop ?b (xs @ ys)" by simp
  have "length (drop ?b xs @ ys) - n + ?b = length (xs @ ys) - n"
    by simp
  then have "drop (length (drop ?b xs @ ys) - n) (drop ?b (xs @ ys)) = drop (length (xs @ ys) - n) (xs @ ys)"
    by (simp only: drop_drop)
  then show ?thesis by (simp only: last_bytes_def a)
qed

lemma RingBuffer_new_inv: "RingBuffer_inv (RingBuffer_new g C)"
  by (simp add: RingBuffer_new_def RingBuffer_inv_def)

lemma foldl_append_inv:
  "RingBuffer_inv rb \<Longrightarrow> RingBuffer_inv (foldl RingBuffer_append rb chunks)"
  by (induction chunks arbitrary: rb) (simp_all add: RingBuffer_append_inv)

lemma limit_foldl_append: "limit (foldl RingBuffer_append rb chunks) = limit rb"
  by (induction chunks arbitrary: rb) (simp_all add: limit_append)

lemma toString_foldl_append:
  "RingBuffer_inv rb \<Longrightarrow>
   RingBuffer_toString (foldl RingBuffer_append rb chunks) =
   last_bytes (limit rb) (RingBuffer_toString rb @ concat chunks)"
proof (induction chunks arbitrary: rb)
  case Nil
  then show ?case by (simp add: last_bytes_def length_toString RingBuffer_inv_def)
next
  case (Cons c chunks)
  have "RingBuffer_toString (foldl RingBuffer_append (RingBuffer_append rb c) chunks) =
      last_bytes (limit rb) (RingBuffer_toString (RingBuffer_append rb c) @ concat chunks)"
    using Cons.IH[OF RingBuffer_append_inv[OF Cons.prems] ] by (simp add: limit_append)
  then show ?case
    by (simp add: toString_append[OF Cons.prems] last_bytes_last_bytes)
qed

lemma toString_fresh_chunks:
  "RingBuffer_toString (foldl RingBuffer_append (RingBuffer_new g C) chunks) =
   last_bytes C (concat chunks)"
  using toString_foldl_append[OF RingBuffer_new_inv, of g C chunks]
  by (simp add: RingBuffer_new_def RingBuffer_toString_def)

lemma toString_first_chunk:
  "length b \<le> C \<Longrightarrow> RingBuffer_toString (RingBuffer_append (RingBuffer_new g C) b) = b"
  using toString_fresh_chunks[of g C "[b]"] by (simp add: last_bytes_def)

text \<open>
  Claim C1.  Whatever the capacity \<open>C\<close>, the uncleared initial memory and the way the
  stream is cut into chunks, after appending the chunks to a fresh ring buffer the snapshot
  is the last \<open>min C total\<close> bytes of the concatenated stream, in order; two ways of cutting
  the same stream give the same snapshot; and appending one further chunk of at least \<open>C\<close>
  bytes leaves exactly the last \<open>C\<close> bytes of that chunk.
\<close>

theorem scrollback_snapshot_is_stream_tail:
  "RingBuffer_toString (foldl RingBuffer_append (RingBuffer_new garbage C) chunks) =
     drop (length (concat chunks) - min C (length (concat chunks))) (concat chunks)
   \<and> (concat chunks' = concat chunks \<longrightarrow>
        RingBuffer_toString (foldl RingBuffer_append (RingBuffer_new garbage' C) chunks') =
        RingBuffer_toString (foldl RingBuffer_append (RingBuffer_new garbage C) chunks))
   \<and> (C \<le> length b \<longrightarrow>
        RingBuffer_toString
          (RingBuffer_append (foldl RingBuffer_append (RingBuffer_new garbage C) chunks) b) =
        drop (length b - C) b)"
proof (intro conjI)
  let ?rb = "foldl RingBuffer_append (RingBuffer_new garbage C) chunks"
  have inv: "RingBuffer_inv ?rb" by (simp add: foldl_append_inv RingBuffer_new_inv)
  have lim: "limit ?rb = C" by (simp add: limit_foldl_append RingBuffer_new_def)
  show "RingBuffer_toString ?rb =
     drop (length (concat chunks) - min C (length (concat chunks))) (concat chunks)"
    by (simp add: toString_fresh_chunks last_bytes_def min_def)
  show "concat chunks' = concat chunks \<longrightarrow>
        RingBuffer_toString (foldl RingBuffer_append (RingBuffer_new garbage' C) chunks') =
        RingBuffer_toString ?rb"
    by (simp add: toString_fresh_chunks)
  show "C \<le> length b \<longrightarrow> RingBuffer_toString (RingBuffer_append ?rb b) = drop (length b - C) b"
    using toString_append_big[OF inv, of b] by (simp add: lim)
qed

text \<open>
  Six bytes reach a buffer of capacity four, cut in two different ways; then a chunk of five
  bytes follows.
\<close>

theorem scrollback_snapshot_witness:
  "RingBuffer_toString
     (foldl RingBuffer_append (RingBuffer_new (\<lambda>_. 0) 4) [ [1, 2, 3], [4, 5], [6] ]) = [3, 4, 5, 6]
   \<and> RingBuffer_toString
     (foldl RingBuffer_append (RingBuffer_new (\<lambda>_. 255) 4) [ [1], [2, 3, 4, 5, 6] ]) = [3, 4, 5, 6]
   \<and> (4::nat) \<le> length [7, 8, 9, 10, 11 :: byte]
   \<and> RingBuffer_toString
        (RingBuffer_append
           (foldl RingBuffer_append (RingBuffer_new (\<lambda>_. 0) 4) [ [1, 2, 3], [4, 5], [6] ])
           [7, 8, 9, 10, 11]) = [8, 9, 10, 11]"
  using scrollback_snapshot_is_stream_tail
          [of "\<lambda>_. 0" 4 "[ [1, 2, 3], [4, 5], [6] ]" "[ [1], [2, 3, 4, 5, 6] ]" "\<lambda>_. 255"
              "[7, 8, 9, 10, 11]"]
  by simp

section \<open>The token bucket\<close>







section \<open>Sockets, emitting and evaluation\<close>

lemma map_of_map_sockets:
  "map_of (map (\<lambda>(k, sk). if P k sk then (k, f sk) else (k, sk)) xs) c =
   map_option (\<lambda>sk. if P c sk then f sk else sk) (map_of xs c)"
  by (induction xs) auto

lemma map_of_emit_to:
  "map_of (sockets (emit_to P ev sv)) c =
   map_option (\<lambda>sk. if P c sk then sk\<lparr>outbox := outbox sk @ [ev]\<rparr> else sk) (map_of (sockets sv) c)"
  unfolding emit_to_def by (simp add: map_of_map_sockets)

lemma map_of_update_socket:
  "map_of (sockets (update_socket c f sv)) k =
   map_option (\<lambda>sk. if k = c then f sk else sk) (map_of (sockets sv) k)"
  unfolding update_socket_def using map_of_map_sockets[of "\<lambda>k _. k = c" f "sockets sv" k] by simp

lemma outboxes_update_socket:
  "(\<And>sk. outbox (f sk) = outbox sk) \<Longrightarrow> outboxes (update_socket c f sv) = outboxes sv"
  by (auto simp: outboxes_def update_socket_def)

lemma emit_to_frame [simp]:
  "heap (emit_to P ev sv) = heap sv" "sessions (emit_to P ev sv) = sessions sv"
  "next_ref (emit_to P ev sv) = next_ref sv" "timers (emit_to P ev sv) = timers sv"
  by (simp_all add: emit_to_def)

lemma update_socket_frame [simp]:
  "heap (update_socket c f sv) = heap sv" "sessions (update_socket c f sv) = sessions sv"
  "next_ref (update_socket c f sv) = next_ref sv" "timers (update_socket c f sv) = timers sv"
  by (simp_all add: update_socket_def)

lemma pty_do_frame [simp]:
  "sessions (pty_do r call sv) = sessions sv" "sockets (pty_do r call sv) = sockets sv"
  "next_ref (pty_do r call sv) = next_ref sv" "timers (pty_do r call sv) = timers sv"
  by (simp_all add: pty_do_def)

lemmas model_defs = run_def step_def on_startup_def createSession_def getNextSessionNumber_def
  usedNumbers_def io_emit_def emit_to_def init_server_def on_connection_def listSessions_def
  on_switch_session_def update_socket_def socket_emit_def on_resize_def pty_do_def
  on_input_def on_close_session_def on_pty_exit_def on_pty_data_def io_to_emit_def
  on_create_session_def on_disconnect_def
  List.map_filter_def digit_char_def createBucket_def subscriptions_def outboxes_def

lemma createSession_sockets:
  "sockets (snd (createSession sv isInitial uuid ok g)) =
     (if ok then sockets (io_emit (SessionCreated uuid (''Session '' @ show_nat (getNextSessionNumber sv))) sv)
      else sockets sv)"
  by (simp add: createSession_def Let_def io_emit_def emit_to_def)

lemma appended_emit_to:
  assumes "map_of (sockets sv) k = Some sk"
  shows "appended sv (emit_to P ev sv) k (if P k sk then [ev] else [])"
  using assms by (simp add: appended_def map_of_emit_to)

lemma appended_update_socket:
  assumes "map_of (sockets sv) k = Some sk" "\<And>s. outbox (f s) = outbox s"
  shows "appended sv (update_socket c f sv) k []"
  using assms by (simp add: appended_def map_of_update_socket)

lemma appended_same:
  assumes "map_of (sockets sv) k = Some sk" "sockets sv' = sockets sv"
  shows "appended sv sv' k []"
  using assms by (simp add: appended_def)

lemma appended_trans:
  "appended sv sv1 k xs \<Longrightarrow> appended sv1 sv2 k ys \<Longrightarrow> appended sv sv2 k (xs @ ys)"
  by (auto simp: appended_def split: option.splits)

lemma appended_connected:
  "appended sv sv' k new \<Longrightarrow> \<exists>sk'. map_of (sockets sv') k = Some sk'"
  by (auto simp: appended_def split: option.splits)

lemma session_number_examples:
  "session_number ''Session 1'' = Some 1" "session_number ''Session 2'' = Some 2"
  "session_number ''Session 3'' = Some 3"
  by (simp_all add: session_number_def is_digit_def parseInt10_def)

lemma show_nat_examples:
  "show_nat (Suc 0) = ''1''" "show_nat (Suc (Suc 0)) = ''2''"
  "show_nat (Suc (Suc (Suc 0))) = ''3''"
  by (simp_all add: show_nat.simps digit_char_def)

section \<open>A failing spawn\<close>

text \<open>
  Claim C8.  When \<open>pty.spawn\<close> fails, \<open>createSession\<close> returns the failure value and the
  state it was given: no session is registered and nothing is announced.  The handlers
  that call it return normally, with the state unchanged.
\<close>

theorem spawn_failure_registers_nothing:
  "createSession sv isInitial uuid False garbage = (None, sv)
   \<and> handle sv (CreateSession c has_callback uuid False garbage) = Returned sv
   \<and> handle sv (Startup uuid False garbage) = Returned sv"
  by (simp add: createSession_def on_create_session_def on_startup_def split: option.split)

theorem spawn_failure_witness:
  "createSession (step init_server (Connection ''c1'' 0)) False ''s1'' False of_nat
     = (None, step init_server (Connection ''c1'' 0))
   \<and> handle (step init_server (Connection ''c1'' 0)) (CreateSession ''c1'' True ''s1'' False of_nat)
     = Returned (step init_server (Connection ''c1'' 0))
   \<and> listSessions (step init_server (Connection ''c1'' 0)) = []
   \<and> outboxes (step init_server (Connection ''c1'' 0)) = [(''c1'', [SessionsList [] ])]"
  using spawn_failure_registers_nothing
          [of "step init_server (Connection ''c1'' 0)" False "''s1''" of_nat "''c1''" True]
  by (simp add: model_defs)

section \<open>Keystrokes\<close>

text \<open>
  Claim C10.  An \<open>input\<close> request whose session id is not registered leaves the whole
  state as it is; in particular the bucket of the connection is neither refilled nor
  charged.
\<close>

theorem input_to_unknown_session_is_noop:
  assumes "map_of (sessions sv) sessionId = None"
  shows "handle sv (Input c sessionId data now write_throws) = Returned sv"
  using assms by (simp add: on_input_def split: option.split)

theorem input_to_unknown_session_witness:
  "map_of (sessions (step init_server (Connection ''c1'' 5))) ''s9'' = None
   \<and> handle (step init_server (Connection ''c1'' 5)) (Input ''c1'' ''s9'' [104, 105] 9 False)
       = Returned (step init_server (Connection ''c1'' 5))
   \<and> map (\<lambda>(k, sk). (k, tokens (bucket sk), last_ms (bucket sk)))
         (sockets (step init_server (Connection ''c1'' 5))) = [(''c1'', 32768, 5)]"
proof -
  have a: "map_of (sessions (step init_server (Connection ''c1'' 5))) ''s9'' = None"
    by (simp add: step_def on_connection_def init_server_def)
  show ?thesis
    using input_to_unknown_session_is_noop[OF a, of "''c1''" "[104, 105]" 9 False] a
    by (simp add: step_def on_connection_def init_server_def createBucket_def)
qed

text \<open>
  Claim C9.  For an \<open>input\<close> request of a connected socket to a registered session the
  handler returns normally.  When the bucket refuses the UTF-8 length of the data, nothing
  is written to the pseudo-terminal; when it admits it, the data are written as they are,
  to that session's pseudo-terminal and to no other.  Nothing is emitted to any socket, no
  room and no registry entry changes; the bucket is left as \<open>take\<close> leaves it.
\<close>

theorem input_is_rate_limited:
  assumes "map_of (sockets sv) c = Some sk" and "map_of (sessions sv) sessionId = Some r"
  shows "\<exists>sv'. handle sv (Input c sessionId data now write_throws) = Returned sv'
      \<and> heap sv' = (if fst (bucket_take (bucket sk) now (length data))
                    then (heap sv)(r := (heap sv r)\<lparr>pty := pty (heap sv r) @ [Write data]\<rparr>)
                    else heap sv)
      \<and> outboxes sv' = outboxes sv \<and> subscriptions sv' = subscriptions sv
      \<and> sessions sv' = sessions sv
      \<and> map_option bucket (map_of (sockets sv') c)
          = Some (snd (bucket_take (bucket sk) now (length data)))"
proof -
  obtain ok bk where t: "bucket_take (bucket sk) now (length data) = (ok, bk)"
    by (cases "bucket_take (bucket sk) now (length data)")
  let ?sv1 = "update_socket c (\<lambda>s. s\<lparr>bucket := bk\<rparr>) sv"
  have h: "handle sv (Input c sessionId data now write_throws) =
      Returned (if ok then pty_do r (Write data) ?sv1 else ?sv1)"
    using assms by (simp add: on_input_def t)
  have o: "outboxes ?sv1 = outboxes sv" "subscriptions ?sv1 = subscriptions sv"
    by (auto simp: outboxes_def subscriptions_def update_socket_def)
  have b: "map_option bucket (map_of (sockets ?sv1) c) = Some bk"
    using assms(1) by (simp add: map_of_update_socket)
  show ?thesis
  proof (cases ok)
    case True
    then show ?thesis using h o b
      by (simp add: t outboxes_def subscriptions_def) (simp add: pty_do_def)
  next
    case False
    then show ?thesis using h o b by (simp add: t)
  qed
qed

text \<open>
  A bucket holding one token refuses two bytes and admits one byte.
\<close>

theorem input_is_rate_limited_witness:
  "pty (heap (step (init_server\<lparr>next_ref := 1, sessions := [(''s1'', 0)],
        sockets := [(''c1'', \<lparr>rooms = [''c1'', ''s1''],
                             bucket = \<lparr>capacity = 32768, refillRate = 16384, tokens = 1, last_ms = 0\<rparr>,
                             outbox = []\<rparr>)]\<rparr>)
      (Input ''c1'' ''s1'' [104, 105] 0 False)) 0) = []
   \<and> pty (heap (step (init_server\<lparr>next_ref := 1, sessions := [(''s1'', 0)],
        sockets := [(''c1'', \<lparr>rooms = [''c1'', ''s1''],
                             bucket = \<lparr>capacity = 32768, refillRate = 16384, tokens = 1, last_ms = 0\<rparr>,
                             outbox = []\<rparr>)]\<rparr>)
      (Input ''c1'' ''s1'' [104] 0 False)) 0) = [Write [104] ]"
proof -
  let ?bk = "\<lparr>capacity = 32768, refillRate = 16384, tokens = 1, last_ms = 0\<rparr>"
  let ?sk = "\<lparr>rooms = [''c1'', ''s1''], bucket = ?bk, outbox = []\<rparr>"
  let ?sv = "init_server\<lparr>next_ref := 1, sessions := [(''s1'', 0)], sockets := [(''c1'', ?sk)]\<rparr>"
  have a: "map_of (sockets ?sv) ''c1'' = Some ?sk" by simp
  have b: "map_of (sessions ?sv) ''s1'' = Some 0" by simp
  have p: "pty (heap ?sv 0) = []" by (simp add: init_server_def)
  have t2: "\<not> fst (bucket_take ?bk 0 (length [104, 105 :: byte]))"
    and t1: "fst (bucket_take ?bk 0 (length [104 :: byte]))"
    by (simp_all add: bucket_take_def)
  from input_is_rate_limited[OF a b, of "[104, 105]" 0 False]
  have 1: "pty (heap (step ?sv (Input ''c1'' ''s1'' [104, 105] 0 False)) 0) = []"
    using t2 p by (auto simp: step_def)
  from input_is_rate_limited[OF a b, of "[104]" 0 False]
  have 2: "pty (heap (step ?sv (Input ''c1'' ''s1'' [104] 0 False)) 0) = [Write [104] ]"
    using t1 p by (auto simp: step_def)
  show ?thesis using 1 2 by simp
qed

section \<open>Resizing\<close>

lemma in_interval_js_or:
  "(\<not> js_less (js_or v d) lo \<and> \<not> js_greater (js_or v d) hi) = in_interval lo hi (js_or v d)"
  by (cases v) (auto simp: in_interval_def)

text \<open>
  Claim C3, as stated, fails: a request with \<open>cols = 0\<close>, which is outside \<open>[40, 1000]\<close>,
  is not ignored.  \<open>Number(cols) || 80\<close> replaces the zero by 80 and the pseudo-terminal is
  resized to 80 columns.
\<close>

theorem resize_zero_cols_counterexample:
  "\<not> in_interval 40 1000 (Num 0)
   \<and> pty (heap (run init_server [Startup ''s1'' True of_nat, Connection ''c1'' 0]) 0) = []
   \<and> pty (heap (step (run init_server [Startup ''s1'' True of_nat, Connection ''c1'' 0])
                     (ResizeRequest ''c1'' ''s1'' (Num 0) (Num 24) False)) 0)
       = [Resize (Num 80) (Num 24)]"
  by (simp add: model_defs show_nat_examples in_interval_def)

text \<open>
  Claim C3, amended.  For a resize request of a connected socket on a registered session,
  \<open>cols\<close> and \<open>rows\<close> are first replaced by 80 and 30 when they are zero or not a number.
  If then \<open>cols\<close> is outside \<open>[40, 1000]\<close> or \<open>rows\<close> outside \<open>[10, 400]\<close>, the request is
  ignored: the state is unchanged.  Otherwise \<open>resize\<close> is called on the session's
  pseudo-terminal with exactly these values, and nothing else changes; values that are in
  bounds as sent are passed on as sent.  The handler returns normally in every case.
\<close>

theorem resize_applies_defaults_then_bounds:
  assumes "map_of (sockets sv) c = Some sk" and "map_of (sessions sv) sessionId = Some r"
  shows "\<exists>sv'. handle sv (ResizeRequest c sessionId cols rows resize_throws) = Returned sv'
      \<and> sockets sv' = sockets sv \<and> sessions sv' = sessions sv
      \<and> heap sv' =
          (if in_interval 40 1000 (js_or cols 80) \<and> in_interval 10 400 (js_or rows 30)
           then (heap sv)(r := (heap sv r)\<lparr>pty := pty (heap sv r) @
                                              [Resize (js_or cols 80) (js_or rows 30)]\<rparr>)
           else heap sv)
      \<and> (in_interval 40 1000 cols \<longrightarrow> js_or cols 80 = cols)
      \<and> (in_interval 10 400 rows \<longrightarrow> js_or rows 30 = rows)"
proof -
  have c: "in_interval 40 1000 cols \<longrightarrow> js_or cols 80 = cols"
    by (cases cols) (auto simp: in_interval_def)
  have r: "in_interval 10 400 rows \<longrightarrow> js_or rows 30 = rows"
    by (cases rows) (auto simp: in_interval_def)
  have i: "(js_less (js_or cols 80) 40 \<or> js_greater (js_or cols 80) 1000
          \<or> js_less (js_or rows 30) 10 \<or> js_greater (js_or rows 30) 400)
        = (\<not> (in_interval 40 1000 (js_or cols 80) \<and> in_interval 10 400 (js_or rows 30)))"
    using in_interval_js_or[of cols 80 40 1000] in_interval_js_or[of rows 30 10 400] by blast
  let ?ok = "in_interval 40 1000 (js_or cols 80) \<and> in_interval 10 400 (js_or rows 30)"
  have h: "handle sv (ResizeRequest c sessionId cols rows resize_throws) =
      Returned (if ?ok then pty_do r (Resize (js_or cols 80) (js_or rows 30)) sv else sv)"
    using assms by (simp add: on_resize_def Let_def i)
  show ?thesis
  proof (cases ?ok)
    case True
    then show ?thesis using c r unfolding h by (simp add: pty_do_def)
  next
    case False
    then show ?thesis using c r unfolding h by auto
  qed
qed

theorem resize_witness:
  "pty (heap (step (run init_server [Startup ''s1'' True of_nat, Connection ''c1'' 0])
                   (ResizeRequest ''c1'' ''s1'' (Num 100) (Num 24) False)) 0)
     = [Resize (Num 100) (Num 24)]
   \<and> pty (heap (step (run init_server [Startup ''s1'' True of_nat, Connection ''c1'' 0])
                   (ResizeRequest ''c1'' ''s1'' (Num 20) (Num 24) False)) 0) = []"
proof -
  let ?sv = "run init_server [Startup ''s1'' True of_nat, Connection ''c1'' 0]"
  let ?sk = "\<lparr>rooms = [''c1''], bucket = createBucket 32768 16384 0,
              outbox = [SessionsList [(''s1'', ''Session 1'')] ]\<rparr>"
  have a: "map_of (sockets ?sv) ''c1'' = Some ?sk"
    by (simp add: model_defs show_nat_examples)
  have b: "map_of (sessions ?sv) ''s1'' = Some 0"
    by (simp add: model_defs show_nat_examples)
  have p: "pty (heap ?sv 0) = []"
    by (simp add: model_defs show_nat_examples)
  from resize_applies_defaults_then_bounds[OF a b, of "Num 100" "Num 24" False]
  have 1: "pty (heap (step ?sv (ResizeRequest ''c1'' ''s1'' (Num 100) (Num 24) False)) 0)
      = [Resize (Num 100) (Num 24)]"
    by (auto simp: step_def in_interval_def p)
  from resize_applies_defaults_then_bounds[OF a b, of "Num 20" "Num 24" False]
  have 2: "pty (heap (step ?sv (ResizeRequest ''c1'' ''s1'' (Num 20) (Num 24) False)) 0) = []"
    by (auto simp: step_def in_interval_def p)
  show ?thesis using 1 2 by simp
qed

section \<open>Switching to a session that does not exist\<close>

text \<open>
  Claim C2, as stated, fails: a socket subscribed to \<open>s1\<close> that asks for the unregistered
  \<open>s2\<close> is no longer in the room \<open>s1\<close> afterwards.  The handler leaves the rooms before it
  looks the session up.
\<close>

theorem switch_to_unknown_session_counterexample:
  "map_of (sessions (run init_server [Startup ''s1'' True of_nat, Connection ''c1'' 0,
                                      SwitchSession ''c1'' ''s1''])) ''s2'' = None
   \<and> subscriptions (run init_server [Startup ''s1'' True of_nat, Connection ''c1'' 0,
                                    SwitchSession ''c1'' ''s1'']) = [(''c1'', [''c1'', ''s1''])]
   \<and> subscriptions (step (run init_server [Startup ''s1'' True of_nat, Connection ''c1'' 0,
                                          SwitchSession ''c1'' ''s1''])
                          (SwitchSession ''c1'' ''s2'')) = [(''c1'', [''c1''])]"
  by (simp add: model_defs show_nat_examples RingBuffer_toString_def RingBuffer_new_def)

text \<open>
  Claim C2, amended.  A \<open>switch-session\<close> request of a connected socket naming an
  unregistered id makes the socket leave every room but its own, so that it is subscribed
  to no session; nothing is emitted (no \<open>history\<close> event), no room is joined, and the
  registry, the session objects and all other sockets are unchanged.
\<close>

theorem switch_to_unknown_session_leaves_rooms:
  assumes "map_of (sockets sv) c = Some sk" and "map_of (sessions sv) sessionId = None"
  shows "\<exists>sv'. handle sv (SwitchSession c sessionId) = Returned sv'
      \<and> map_of (sockets sv') c = Some (sk\<lparr>rooms := filter (\<lambda>room. room = c) (rooms sk)\<rparr>)
      \<and> (\<forall>k. k \<noteq> c \<longrightarrow> map_of (sockets sv') k = map_of (sockets sv) k)
      \<and> outboxes sv' = outboxes sv \<and> sessions sv' = sessions sv \<and> heap sv' = heap sv"
proof -
  let ?sv1 = "update_socket c (\<lambda>sk. sk\<lparr>rooms := filter (\<lambda>room. room = c) (rooms sk)\<rparr>) sv"
  have "handle sv (SwitchSession c sessionId) = Returned ?sv1"
    using assms by (simp add: on_switch_session_def)
  moreover have "map_of (sockets ?sv1) c = Some (sk\<lparr>rooms := filter (\<lambda>room. room = c) (rooms sk)\<rparr>)"
    using assms(1) by (simp add: map_of_update_socket)
  moreover have "\<forall>k. k \<noteq> c \<longrightarrow> map_of (sockets ?sv1) k = map_of (sockets sv) k"
    by (simp add: map_of_update_socket option.map_ident)
  moreover have "outboxes ?sv1 = outboxes sv"
    by (rule outboxes_update_socket) simp
  ultimately show ?thesis by simp
qed

theorem switch_to_unknown_session_witness:
  "map_of (sessions (run init_server [Startup ''s1'' True of_nat, Connection ''c1'' 0,
                                      SwitchSession ''c1'' ''s1''])) ''s2'' = None
   \<and> handle (run init_server [Startup ''s1'' True of_nat, Connection ''c1'' 0,
                              SwitchSession ''c1'' ''s1'']) (SwitchSession ''c1'' ''s2'')
       = Returned (step (run init_server [Startup ''s1'' True of_nat, Connection ''c1'' 0,
                                          SwitchSession ''c1'' ''s1'']) (SwitchSession ''c1'' ''s2''))
   \<and> map_option rooms (map_of (sockets (step (run init_server
          [Startup ''s1'' True of_nat, Connection ''c1'' 0, SwitchSession ''c1'' ''s1''])
          (SwitchSession ''c1'' ''s2''))) ''c1'') = Some [''c1'']"
proof -
  let ?sv = "run init_server [Startup ''s1'' True of_nat, Connection ''c1'' 0,
                              SwitchSession ''c1'' ''s1'']"
  let ?sk = "\<lparr>rooms = [''c1'', ''s1''], bucket = createBucket 32768 16384 0,
              outbox = [SessionsList [(''s1'', ''Session 1'')] ]\<rparr>"
  have a: "map_of (sockets ?sv) ''c1'' = Some ?sk"
    by (simp add: model_defs show_nat_examples RingBuffer_toString_def RingBuffer_new_def)
  have b: "map_of (sessions ?sv) ''s2'' = None"
    by (simp add: model_defs show_nat_examples RingBuffer_toString_def RingBuffer_new_def)
  from switch_to_unknown_session_leaves_rooms[OF a b]
  obtain sv' where h: "handle ?sv (SwitchSession ''c1'' ''s2'') = Returned sv'"
    and r: "map_of (sockets sv') ''c1'' = Some (?sk\<lparr>rooms := filter (\<lambda>room. room = ''c1'') (rooms ?sk)\<rparr>)"
    by blast
  have "step ?sv (SwitchSession ''c1'' ''s2'') = sv'" using h by (simp add: step_def)
  then show ?thesis using b h r by simp
qed

section \<open>Session names\<close>

lemma digit_cases: "d < 10 \<Longrightarrow> d = 0 \<or> d = 1 \<or> d = 2 \<or> d = 3 \<or> d = 4 \<or> d = 5 \<or> d = 6 \<or> d = 7 \<or> d = 8 \<or> d = (9::nat)"
  by presburger

lemma digit_char_ok:
  assumes "d < 10"
  shows "is_digit (digit_char d) \<and> (of_char (digit_char d) :: nat) - 48 = d"
  using digit_cases[OF assms] by (elim disjE) (simp_all add: digit_char_def is_digit_def)

lemma show_nat_digits: "list_all is_digit (show_nat n) \<and> show_nat n \<noteq> []"
proof (induction n rule: show_nat.induct)
  case (1 n)
  show ?case
  proof (cases "n < 10")
    case True
    then show ?thesis using digit_char_ok[of n] by (subst (1 2) show_nat.simps) simp
  next
    case False
    then have "n mod 10 < 10" by simp
    then show ?thesis using False 1 digit_char_ok[of "n mod 10"]
      by (subst (1 2) show_nat.simps) simp
  qed
qed

lemma parseInt10_snoc: "parseInt10 (ds @ [c]) = 10 * parseInt10 ds + ((of_char c :: nat) - 48)"
  by (simp add: parseInt10_def)

lemma parseInt10_show_nat: "parseInt10 (show_nat n) = n"
proof (induction n rule: show_nat.induct)
  case (1 n)
  show ?case
  proof (cases "n < 10")
    case True
    then show ?thesis using digit_char_ok[of n]
      by (subst show_nat.simps) (simp add: parseInt10_def)
  next
    case False
    then have "n mod 10 < 10" by simp
    then show ?thesis using False 1 digit_char_ok[of "n mod 10"]
      by (subst show_nat.simps) (simp add: parseInt10_snoc)
  qed
qed

lemma session_number_name: "session_number (''Session '' @ show_nat n) = Some n"
  using show_nat_digits[of n] by (simp add: session_number_def parseInt10_show_nat)

lemma map_filter_map: "List.map_filter f (map g xs) = List.map_filter (f \<circ> g) xs"
  by (induction xs) (simp_all add: List.map_filter_simps split: option.split)

lemma usedNumbers_live: "usedNumbers sv = sort (live_numbers sv)"
  by (simp add: usedNumbers_def live_numbers_def map_filter_map comp_def case_prod_unfold)

lemma scan_gap_least:
  "sorted_wrt (<) xs \<Longrightarrow> \<forall>x\<in>set xs. c \<le> x \<Longrightarrow>
   c \<le> scan_gap c xs \<and> scan_gap c xs \<notin> set xs \<and> (\<forall>k. c \<le> k \<and> k < scan_gap c xs \<longrightarrow> k \<in> set xs)"
proof (induction xs arbitrary: c)
  case Nil
  then show ?case by simp
next
  case (Cons x xs)
  show ?case
  proof (cases "x = c")
    case True
    have "sorted_wrt (<) xs" "\<forall>y\<in>set xs. c + 1 \<le> y" using Cons.prems True by auto
    from Cons.IH[OF this] have r: "c + 1 \<le> scan_gap (c + 1) xs"
      "scan_gap (c + 1) xs \<notin> set xs"
      "\<And>k. c + 1 \<le> k \<Longrightarrow> k < scan_gap (c + 1) xs \<Longrightarrow> k \<in> set xs"
      by blast+
    have s: "scan_gap c (x # xs) = scan_gap (c + 1) xs" using True by simp
    have "\<forall>k. c \<le> k \<and> k < scan_gap (c + 1) xs \<longrightarrow> k \<in> set (x # xs)"
    proof (intro allI impI)
      fix k assume k: "c \<le> k \<and> k < scan_gap (c + 1) xs"
      show "k \<in> set (x # xs)"
      proof (cases "k = c")
        case True
        then show ?thesis using \<open>x = c\<close> by simp
      next
        case False
        then have "c + 1 \<le> k" using k by simp
        then show ?thesis using r(3) k by simp
      qed
    qed
    moreover have "c \<le> scan_gap (c + 1) xs" "scan_gap (c + 1) xs \<noteq> x"
      using r(1) True by simp_all
    ultimately show ?thesis unfolding s using r(2) by simp
  next
    case False
    then have "c < x" using Cons.prems by auto
    then have "c \<notin> set (x # xs)" using Cons.prems by auto
    then show ?thesis using False by simp
  qed
qed

lemma getNextSessionNumber_least:
  assumes "registry_inv sv"
  shows "getNextSessionNumber sv = (LEAST n. 0 < n \<and> n \<notin> set (live_numbers sv))"
proof -
  let ?xs = "sort (live_numbers sv)"
  have d: "distinct (live_numbers sv)" "0 \<notin> set (live_numbers sv)"
    using assms by (simp_all add: registry_inv_def)
  have "sorted_wrt (<) ?xs" using d by (simp add: strict_sorted_iff)
  moreover have "\<forall>x\<in>set ?xs. 1 \<le> x" using d by (auto simp: Suc_le_eq intro: gr0I)
  ultimately have g: "1 \<le> scan_gap 1 ?xs" "scan_gap 1 ?xs \<notin> set ?xs"
    "\<forall>k. 1 \<le> k \<and> k < scan_gap 1 ?xs \<longrightarrow> k \<in> set ?xs"
    using scan_gap_least[of ?xs 1] by blast+
  have "(LEAST n. 0 < n \<and> n \<notin> set (live_numbers sv)) = scan_gap 1 ?xs"
  proof (rule Least_equality)
    show "0 < scan_gap 1 ?xs \<and> scan_gap 1 ?xs \<notin> set (live_numbers sv)"
      using g by simp
    fix y assume "0 < y \<and> y \<notin> set (live_numbers sv)"
    then show "scan_gap 1 ?xs \<le> y" using g(3) by (metis One_nat_def Suc_leI not_le set_sort)
  qed
  then show ?thesis by (simp add: getNextSessionNumber_def usedNumbers_live)
qed

lemma getNextSessionNumber_fresh:
  assumes "registry_inv sv"
  shows "0 < getNextSessionNumber sv \<and> getNextSessionNumber sv \<notin> set (live_numbers sv)"
proof -
  have "\<exists>n. 0 < n \<and> n \<notin> set (live_numbers sv)"
  proof -
    have "finite (insert 0 (set (live_numbers sv)))" by simp
    then obtain m where "m \<notin> insert 0 (set (live_numbers sv))"
      using ex_new_if_finite[OF infinite_UNIV_nat] by blast
    then show ?thesis by auto
  qed
  then show ?thesis
    unfolding getNextSessionNumber_least[OF assms] by (rule LeastI_ex)
qed

lemma map_filter_cong_set:
  "(\<And>x. x \<in> set xs \<Longrightarrow> f x = g x) \<Longrightarrow> List.map_filter f xs = List.map_filter g xs"
  by (induction xs) (auto split: option.split)

lemma distinct_mf_update:
  assumes "distinct (List.map_filter f xs)" "f (k, v) = Some N" "N \<notin> set (List.map_filter f xs)"
  shows "distinct (List.map_filter f (AList.update k v xs))
       \<and> set (List.map_filter f (AList.update k v xs)) \<subseteq> insert N (set (List.map_filter f xs))"
  using assms
proof (induction xs)
  case Nil
  then show ?case by (simp add:)
next
  case (Cons a xs)
  obtain k' v' where a: "a = (k', v')" by (cases a)
  show ?case
  proof (cases "k' = k")
    case True
    then show ?thesis using Cons.prems
      by (auto simp: a split: option.splits)
  next
    case False
    have p: "distinct (List.map_filter f xs)" "N \<notin> set (List.map_filter f xs)"
      using Cons.prems by (auto simp: split: option.splits)
    note ih = Cons.IH[OF p(1) Cons.prems(2) p(2)]
    show ?thesis
    proof (cases "f a")
      case None
      then show ?thesis using ih False by (simp add: a)
    next
      case (Some y)
      then have "y \<noteq> N" "y \<notin> set (List.map_filter f xs)"
        using Cons.prems by (auto simp:)
      then have "y \<notin> set (List.map_filter f (AList.update k v xs))" using ih by auto
      then show ?thesis using ih False Some by (auto simp: a)
    qed
  qed
qed

lemma distinct_mf_delete:
  "distinct (List.map_filter f xs) \<Longrightarrow>
   distinct (List.map_filter f (AList.delete k xs))
   \<and> set (List.map_filter f (AList.delete k xs)) \<subseteq> set (List.map_filter f xs)"
proof (induction xs)
  case Nil
  then show ?case by (simp add:)
next
  case (Cons a xs)
  then have d: "distinct (List.map_filter f xs)"
    by (auto simp: split: option.splits)
  note ih = Cons.IH[OF d]
  show ?case
  proof (cases "fst a = k")
    case True
    then show ?thesis using ih by (auto simp: split: option.splits)
  next
    case False
    then show ?thesis using ih Cons.prems
      by (auto simp: split: option.splits)
  qed
qed

lemma list_all_update_aux:
  "list_all (\<lambda>(_, r). r < m) xs \<Longrightarrow> n < m \<Longrightarrow> list_all (\<lambda>(_, r). r < m) (AList.update k n xs)"
  by (induction xs) auto

lemma list_all_update:
  assumes "list_all (\<lambda>(_, r). r < n) xs"
  shows "list_all (\<lambda>(_, r). r < Suc n) (AList.update k n xs)"
proof -
  have "list_all (\<lambda>(_, r). r < Suc n) xs"
    using assms by (auto simp: list_all_iff)
  then show ?thesis by (rule list_all_update_aux) simp
qed

lemma list_all_delete:
  "list_all P xs \<Longrightarrow> list_all P (AList.delete k xs)"
  by (induction xs) auto

lemma live_numbers_frame:
  assumes "sessions sv' = sessions sv" "\<And>r. name (heap sv' r) = name (heap sv r)"
  shows "live_numbers sv' = live_numbers sv"
  by (simp add: live_numbers_def assms)

lemma registry_inv_frame:
  assumes "registry_inv sv" "sessions sv' = sessions sv" "next_ref sv' = next_ref sv"
    "\<And>r. name (heap sv' r) = name (heap sv r)"
  shows "registry_inv sv'"
  using assms(1) live_numbers_frame[OF assms(2,4)] by (simp add: registry_inv_def assms(2,3))

lemma createSession_inv:
  assumes "registry_inv sv"
  shows "registry_inv (snd (createSession sv isInitial uuid spawn_ok garbage))"
proof (cases spawn_ok)
  case False
  then show ?thesis using assms by (simp add: createSession_def)
next
  case True
  let ?N = "getNextSessionNumber sv" and ?r = "next_ref sv"
  let ?s = "\<lparr>session_id = uuid, name = ''Session '' @ show_nat ?N,
              pty = [], history = RingBuffer_new garbage HISTORY_LIMIT\<rparr>"
  let ?sv' = "snd (createSession sv isInitial uuid spawn_ok garbage)"
  let ?f = "\<lambda>(_, r). session_number (name (heap sv r))"
  let ?f' = "\<lambda>(_, r). session_number (name (heap ?sv' r))"
  have h: "heap ?sv' = (heap sv)(?r := ?s)" "next_ref ?sv' = Suc ?r"
    "sessions ?sv' = AList.update uuid ?r (sessions sv)"
    using True by (simp_all add: createSession_def Let_def io_emit_def)
  have refs: "list_all (\<lambda>(_, r). r < ?r) (sessions sv)"
    and d: "distinct (live_numbers sv)" and z: "0 \<notin> set (live_numbers sv)"
    using assms by (simp_all add: registry_inv_def)
  have same: "List.map_filter ?f' (sessions sv) = live_numbers sv"
    unfolding live_numbers_def
    using refs by (intro map_filter_cong_set) (auto simp: h list_all_iff)
  have new: "?f' (uuid, ?r) = Some ?N" using session_number_name[of ?N] by (simp add: h)
  have fresh: "0 < ?N" "?N \<notin> set (live_numbers sv)"
    using getNextSessionNumber_fresh[OF assms] by simp_all
  have "distinct (List.map_filter ?f' (AList.update uuid ?r (sessions sv)))
      \<and> set (List.map_filter ?f' (AList.update uuid ?r (sessions sv)))
          \<subseteq> insert ?N (set (List.map_filter ?f' (sessions sv)))"
    using d fresh(2) new unfolding same[symmetric] by (intro distinct_mf_update) 
  then have "distinct (live_numbers ?sv')" "0 \<notin> set (live_numbers ?sv')"
    using fresh(1) z unfolding same by (auto simp: live_numbers_def h(3))
  moreover have "list_all (\<lambda>(_, r). r < next_ref ?sv') (sessions ?sv')"
    unfolding h using refs by (rule list_all_update)
  ultimately show ?thesis by (simp add: registry_inv_def)
qed

lemma exit_inv:
  assumes "registry_inv sv"
  shows "registry_inv (state_of (on_pty_exit sv r))"
proof (cases "r < next_ref sv")
  case False
  then show ?thesis using assms by (simp add: on_pty_exit_def)
next
  case True
  let ?sv' = "state_of (on_pty_exit sv r)"
  have h: "heap ?sv' = heap sv" "next_ref ?sv' = next_ref sv"
    "sessions ?sv' = AList.delete (session_id (heap sv r)) (sessions sv)"
    using True by (simp_all add: on_pty_exit_def Let_def io_emit_def)
  have "distinct (live_numbers ?sv') \<and> set (live_numbers ?sv') \<subseteq> set (live_numbers sv)"
    unfolding live_numbers_def h using assms
    by (intro distinct_mf_delete) (simp add: registry_inv_def live_numbers_def)
  moreover have "list_all (\<lambda>(_, r). r < next_ref ?sv') (sessions ?sv')"
    unfolding h using assms by (intro list_all_delete) (simp add: registry_inv_def)
  ultimately show ?thesis using assms by (auto simp: registry_inv_def)
qed

lemma step_inv:
  assumes "registry_inv sv"
  shows "registry_inv (step sv e)"
proof (cases e)
  case (Startup uuid ok g)
  then show ?thesis using assms createSession_inv[OF assms]
    by (simp add: step_def on_startup_def)
next
  case (CreateSession c cb uuid ok g)
  obtain res sv1 where cs: "createSession sv False uuid ok g = (res, sv1)"
    by (cases "createSession sv False uuid ok g")
  then have "registry_inv sv1" using createSession_inv[OF assms, of False uuid ok g] by simp
  moreover have "registry_inv (socket_emit c ev sv1)" if "registry_inv sv1" for ev
    using that by (rule registry_inv_frame) (simp_all add: socket_emit_def)
  ultimately show ?thesis using assms
    by (simp add: CreateSession step_def on_create_session_def cs split: option.split)
next
  case (PtyExit r)
  then show ?thesis using exit_inv[OF assms] by (simp add: step_def)
next
  case (Connection c now)
  show ?thesis using assms
    by (rule registry_inv_frame)
       (simp_all add: Connection step_def on_connection_def Let_def split: option.split)
next
  case (SwitchSession c sid)
  show ?thesis using assms
    by (rule registry_inv_frame)
       (simp_all add: SwitchSession step_def on_switch_session_def Let_def socket_emit_def
          split: option.split)
next
  case (CloseSession c sid kt)
  show ?thesis using assms
    by (rule registry_inv_frame)
       (simp_all add: CloseSession step_def on_close_session_def pty_do_def split: option.split)
next
  case (Input c sid data now wt)
  show ?thesis using assms
    by (rule registry_inv_frame)
       (simp_all add: Input step_def on_input_def Let_def pty_do_def
          split: option.split prod.split)
next
  case (ResizeRequest c sid cols rows rt)
  show ?thesis using assms
    by (rule registry_inv_frame)
       (simp_all add: ResizeRequest step_def on_resize_def Let_def pty_do_def split: option.split)
next
  case (Disconnect c)
  show ?thesis using assms
    by (rule registry_inv_frame) (simp_all add: Disconnect step_def on_disconnect_def)
next
  case (PtyData r d)
  show ?thesis using assms
    by (rule registry_inv_frame)
       (simp_all add: PtyData step_def on_pty_data_def Let_def io_to_emit_def)
next
  case (StartupTimer r wt)
  show ?thesis using assms
    by (rule registry_inv_frame)
       (simp_all add: StartupTimer step_def on_startup_timer_def pty_do_def)
qed

lemma run_inv: "registry_inv sv \<Longrightarrow> registry_inv (run sv evs)"
  unfolding run_def by (induction evs arbitrary: sv) (simp_all add: step_inv)

lemma init_inv: "registry_inv init_server"
  by (simp add: registry_inv_def init_server_def live_numbers_def)

text \<open>
  Claim C5.  In every state the server reaches from its initial state, by any events, a
  successful \<open>createSession\<close> registers the new session under the name \<open>Session N\<close>, where
  \<open>N\<close> is the least positive number that is not the numeric suffix of the name of a
  registered session.
\<close>

theorem next_session_name_fills_gap:
  "fst (createSession (run init_server evs) isInitial uuid True garbage)
     = Some (next_ref (run init_server evs))
   \<and> map_of (sessions (snd (createSession (run init_server evs) isInitial uuid True garbage))) uuid
     = Some (next_ref (run init_server evs))
   \<and> name (heap (snd (createSession (run init_server evs) isInitial uuid True garbage))
                (next_ref (run init_server evs))) =
       ''Session '' @ show_nat (LEAST n. 0 < n \<and> n \<notin> set (live_numbers (run init_server evs)))"
proof -
  have "registry_inv (run init_server evs)" by (simp add: run_inv init_inv)
  from getNextSessionNumber_least[OF this] show ?thesis
    by (simp add: createSession_def Let_def io_emit_def update_conv')
qed

text \<open>
  Sessions 1, 2 and 3 are created, the second is closed and its pseudo-terminal exits:
  the next session is \<open>Session 2\<close>.
\<close>

theorem next_session_name_witness:
  "listSessions (run init_server
      [Startup ''s1'' True of_nat, Connection ''c1'' 0,
       CreateSession ''c1'' True ''s2'' True of_nat, CreateSession ''c1'' True ''s3'' True of_nat,
       CloseSession ''c1'' ''s2'' False, PtyExit 1])
     = [(''s1'', ''Session 1''), (''s3'', ''Session 3'')]
   \<and> name (heap (snd (createSession (run init_server
      [Startup ''s1'' True of_nat, Connection ''c1'' 0,
       CreateSession ''c1'' True ''s2'' True of_nat, CreateSession ''c1'' True ''s3'' True of_nat,
       CloseSession ''c1'' ''s2'' False, PtyExit 1]) False ''s4'' True of_nat)) 3) = ''Session 2''"
proof -
  let ?evs = "[Startup ''s1'' True of_nat, Connection ''c1'' 0,
       CreateSession ''c1'' True ''s2'' True of_nat, CreateSession ''c1'' True ''s3'' True of_nat,
       CloseSession ''c1'' ''s2'' False, PtyExit 1]"
  have ls: "listSessions (run init_server ?evs) = [(''s1'', ''Session 1''), (''s3'', ''Session 3'')]"
    by (simp add: model_defs session_number_examples show_nat_examples)
  have nr: "next_ref (run init_server ?evs) = 3"
    by (simp add: model_defs session_number_examples show_nat_examples)
  have ln: "live_numbers (run init_server ?evs) = [1, 3]"
    by (simp add: model_defs live_numbers_def session_number_examples show_nat_examples)
  have least: "(LEAST n. 0 < n \<and> n \<notin> set [1, 3::nat]) = 2"
    by (rule Least_equality) auto
  have two: "show_nat 2 = ''2''" by (simp add: show_nat.simps digit_char_def)
  show ?thesis
    using next_session_name_fills_gap[of ?evs False "''s4''" of_nat]
    unfolding ln least two nr using ls by simp
qed

section \<open>Closing a session\<close>

lemma ex_appendedI:
  "appended sv sv' k new \<Longrightarrow> (\<And>i n. SessionClosed i n \<notin> set new) \<Longrightarrow>
   \<exists>new. appended sv sv' k new \<and> (\<forall>i n. SessionClosed i n \<notin> set new)"
  by blast

lemma step_appended:
  assumes k: "map_of (sockets sv) k = Some sk" and nd: "e \<noteq> Disconnect k"
  shows "\<exists>new. appended sv (step sv e) k new \<and> closed_only_by_exit sv e new"
proof (cases e)
  case (Startup uuid ok g)
  have "appended sv (step sv e) k
      (if sessions sv = [] \<and> ok
       then [SessionCreated uuid (''Session '' @ show_nat (getNextSessionNumber sv))] else [])"
    using k by (simp add: Startup step_def on_startup_def appended_def createSession_sockets
        io_emit_def map_of_emit_to)
  then show ?thesis by (auto simp: closed_only_by_exit_def split: if_splits)
next
  case (Connection c now)
  have "appended sv (step sv e) k []"
    using k by (auto simp: Connection step_def on_connection_def appended_def Let_def
        split: option.splits)
  then show ?thesis by (auto simp: closed_only_by_exit_def)
next
  case (SwitchSession c sid)
  let ?sv1 = "update_socket c (\<lambda>sk. sk\<lparr>rooms := filter (\<lambda>room. room = c) (rooms sk)\<rparr>) sv"
  let ?sv2 = "update_socket c (\<lambda>sk. sk\<lparr>rooms := (if sid \<in> set (rooms sk) then rooms sk
                                                 else rooms sk @ [sid])\<rparr>) ?sv1"
  have a1: "appended sv ?sv1 k []" using k by (rule appended_update_socket) simp
  then obtain sk1 where k1: "map_of (sockets ?sv1) k = Some sk1"
    using appended_connected by blast
  have "appended ?sv1 ?sv2 k []" using k1 by (rule appended_update_socket) simp
  with a1 have a2: "appended sv ?sv2 k []" using appended_trans by fastforce
  then obtain sk2 where k2: "map_of (sockets ?sv2) k = Some sk2"
    using appended_connected by blast
  have a3: "appended sv (socket_emit c ev ?sv2) k (if k = c then [ev] else [])" for ev
    using appended_trans[OF a2 appended_emit_to[OF k2, of "\<lambda>k _. k = c" ev] ]
    by (simp add: socket_emit_def)
  have "\<exists>new. appended sv (step sv e) k new \<and> (\<forall>i n. SessionClosed i n \<notin> set new)"
  proof (cases "map_of (sockets sv) c")
    case None
    then have "appended sv (step sv e) k []" using appended_same[OF k refl]
      by (simp add: SwitchSession step_def on_switch_session_def)
    then show ?thesis by (rule ex_appendedI) (auto split: if_splits)
  next
    case (Some skc)
    show ?thesis
    proof (cases "map_of (sessions sv) sid")
      case None
      then have "appended sv (step sv e) k []" using Some a1
        by (simp add: SwitchSession step_def on_switch_session_def)
      then show ?thesis by (rule ex_appendedI) (auto split: if_splits)
    next
      case (Some r)
      show ?thesis
      proof (cases "RingBuffer_toString (history (heap sv r)) = []")
        case True
        then have "appended sv (step sv e) k []"
          using \<open>map_of (sockets sv) c = Some skc\<close> Some a2
          by (simp add: SwitchSession step_def on_switch_session_def Let_def)
        then show ?thesis by (rule ex_appendedI) (auto split: if_splits)
      next
        case False
        have "appended sv (step sv e) k
            (if k = c then [History (RingBuffer_toString (history (heap sv r)))] else [])"
          using False \<open>map_of (sockets sv) c = Some skc\<close> Some a3
          by (simp add: SwitchSession step_def on_switch_session_def Let_def)
        then show ?thesis by (rule ex_appendedI) (auto split: if_splits)
      qed
    qed
  qed
  then show ?thesis by (auto simp: closed_only_by_exit_def)
next
  case (CreateSession c cb uuid ok g)
  let ?ev = "SessionCreated uuid (''Session '' @ show_nat (getNextSessionNumber sv))"
  obtain res sv1 where cs: "createSession sv False uuid ok g = (res, sv1)"
    by (cases "createSession sv False uuid ok g")
  have s1: "sockets sv1 = (if ok then sockets (io_emit ?ev sv) else sockets sv)"
    using createSession_sockets[of sv False uuid ok g] by (simp add: cs)
  have a1: "appended sv sv1 k (if ok then [?ev] else [])"
    using k by (simp add: appended_def s1 io_emit_def map_of_emit_to)
  then obtain sk1 where k1: "map_of (sockets sv1) k = Some sk1"
    using appended_connected by blast
  have a2: "appended sv (socket_emit c ev sv1) k ((if ok then [?ev] else []) @ (if k = c then [ev] else []))" for ev
    using appended_trans[OF a1 appended_emit_to[OF k1, of "\<lambda>k _. k = c" ev] ]
    by (simp add: socket_emit_def)
  have "\<exists>new. appended sv (step sv e) k new \<and> (\<forall>i n. SessionClosed i n \<notin> set new)"
  proof (cases "map_of (sockets sv) c")
    case None
    then have "appended sv (step sv e) k []" using appended_same[OF k refl]
      by (simp add: CreateSession step_def on_create_session_def)
    then show ?thesis by (rule ex_appendedI) (auto split: if_splits)
  next
    case (Some skc)
    show ?thesis
    proof (cases res)
      case None
      then have "appended sv (step sv e) k (if ok then [?ev] else [])"
        using Some a1 by (simp add: CreateSession step_def on_create_session_def cs)
      then show ?thesis by (rule ex_appendedI) (auto split: if_splits)
    next
      case (Some r)
      show ?thesis
      proof (cases cb)
        case True
        let ?ack = "CreateAck (session_id (heap sv1 r)) (name (heap sv1 r))"
        have "appended sv (step sv e) k ((if ok then [?ev] else []) @ (if k = c then [?ack] else []))"
          using True Some \<open>map_of (sockets sv) c = Some skc\<close> a2[of ?ack]
          by (simp add: CreateSession step_def on_create_session_def cs)
        then show ?thesis
          by (rule ex_appendedI) (auto split: if_splits)
      next
        case False
        then have "appended sv (step sv e) k (if ok then [?ev] else [])"
          using Some \<open>map_of (sockets sv) c = Some skc\<close> a1
          by (simp add: CreateSession step_def on_create_session_def cs)
        then show ?thesis by (rule ex_appendedI) (auto split: if_splits)
      qed
    qed
  qed
  then show ?thesis by (auto simp: closed_only_by_exit_def)
next
  case (CloseSession c sid kt)
  have "appended sv (step sv e) k []"
    using k by (intro appended_same)
      (auto simp: CloseSession step_def on_close_session_def split: option.splits)
  then show ?thesis by (auto simp: closed_only_by_exit_def)
next
  case (Input c sid data now wt)
  have "appended sv (step sv e) k []"
    using k by (auto simp: Input step_def on_input_def Let_def appended_def map_of_update_socket
        split: option.splits prod.splits)
  then show ?thesis by (auto simp: closed_only_by_exit_def)
next
  case (ResizeRequest c sid cols rows rt)
  have "appended sv (step sv e) k []"
    using k by (intro appended_same)
      (auto simp: ResizeRequest step_def on_resize_def Let_def split: option.splits)
  then show ?thesis by (auto simp: closed_only_by_exit_def)
next
  case (Disconnect c)
  then have "c \<noteq> k" using nd by simp
  then have "appended sv (step sv e) k []"
    using k by (simp add: Disconnect step_def on_disconnect_def appended_def)
  then show ?thesis by (auto simp: closed_only_by_exit_def)
next
  case (PtyData r d)
  have "appended sv (step sv e) k
      (if r < next_ref sv \<and> session_id (heap sv r) \<in> set (rooms sk) then [Output d] else [])"
    using k by (simp add: PtyData step_def on_pty_data_def Let_def appended_def io_to_emit_def
        map_of_emit_to)
  then show ?thesis by (auto simp: closed_only_by_exit_def split: if_splits)
next
  case (PtyExit r)
  have "appended sv (step sv e) k
      (if r < next_ref sv then [SessionClosed (session_id (heap sv r)) (name (heap sv r))] else [])"
    using k by (simp add: PtyExit step_def on_pty_exit_def Let_def appended_def io_emit_def
        map_of_emit_to)
  then show ?thesis using PtyExit by (auto simp: closed_only_by_exit_def split: if_splits)
next
  case (StartupTimer r wt)
  have "appended sv (step sv e) k []"
    using k by (intro appended_same) (auto simp: StartupTimer step_def on_startup_timer_def)
  then show ?thesis by (auto simp: closed_only_by_exit_def)
qed

lemma live_as_frame:
  assumes "live_as sv sid r nm" "sessions sv' = sessions sv" "next_ref sv' = next_ref sv"
    "\<And>x. session_id (heap sv' x) = session_id (heap sv x)"
    "\<And>x. name (heap sv' x) = name (heap sv x)"
  shows "live_as sv' sid r nm"
  using assms by (simp add: live_as_def)

lemma createSession_live_as:
  assumes "live_as sv sid r nm" "uuid \<noteq> sid"
  shows "live_as (snd (createSession sv isInitial uuid ok g)) sid r nm"
proof (cases ok)
  case False
  then show ?thesis using assms by (simp add: createSession_def)
next
  case True
  let ?sv' = "snd (createSession sv isInitial uuid ok g)"
  have h: "next_ref ?sv' = Suc (next_ref sv)"
    "sessions ?sv' = AList.update uuid (next_ref sv) (sessions sv)"
    "\<And>x. x < next_ref sv \<Longrightarrow> heap ?sv' x = heap sv x"
    "session_id (heap ?sv' (next_ref sv)) = uuid"
    using True by (simp_all add: createSession_def Let_def io_emit_def)
  have "map_of (sessions ?sv') sid = Some r"
    using assms by (simp add: h update_conv' live_as_def)
  moreover have "\<forall>r'<next_ref ?sv'. session_id (heap ?sv' r') = sid \<longrightarrow> r' = r"
    using assms h by (auto simp: live_as_def less_Suc_eq)
  ultimately show ?thesis using assms(1) h by (simp add: live_as_def)
qed

lemma step_live_as:
  assumes l: "live_as sv sid r nm" and e: "e \<noteq> PtyExit r" "uuid_of e \<noteq> Some sid"
  shows "live_as (step sv e) sid r nm"
proof (cases e)
  case (Startup uuid ok g)
  then show ?thesis using l e createSession_live_as[OF l, of uuid True ok g]
    by (simp add: step_def on_startup_def)
next
  case (CreateSession c cb uuid ok g)
  obtain res sv1 where cs: "createSession sv False uuid ok g = (res, sv1)"
    by (cases "createSession sv False uuid ok g")
  have "live_as sv1 sid r nm"
    using createSession_live_as[OF l, of uuid False ok g] e CreateSession by (simp add: cs)
  moreover have "live_as (socket_emit c ev sv1) sid r nm" if "live_as sv1 sid r nm" for ev
    using that by (rule live_as_frame) (simp_all add: socket_emit_def)
  ultimately show ?thesis using l
    by (simp add: CreateSession step_def on_create_session_def cs split: option.split)
next
  case (PtyExit r')
  show ?thesis
  proof (cases "r' < next_ref sv")
    case False
    then show ?thesis using l by (simp add: PtyExit step_def on_pty_exit_def)
  next
    case True
    then have ne: "session_id (heap sv r') \<noteq> sid" using l e PtyExit by (auto simp: live_as_def)
    have "sessions (step sv e) = AList.delete (session_id (heap sv r')) (sessions sv)"
      "next_ref (step sv e) = next_ref sv" "heap (step sv e) = heap sv"
      using True by (simp_all add: PtyExit step_def on_pty_exit_def Let_def io_emit_def)
    then show ?thesis using l ne by (simp add: live_as_def)
  qed
next
  case (Connection c now)
  show ?thesis using l
    by (rule live_as_frame)
       (simp_all add: Connection step_def on_connection_def Let_def split: option.split)
next
  case (SwitchSession c s)
  show ?thesis using l
    by (rule live_as_frame)
       (simp_all add: SwitchSession step_def on_switch_session_def Let_def socket_emit_def
          split: option.split)
next
  case (CloseSession c s kt)
  show ?thesis using l
    by (rule live_as_frame)
       (simp_all add: CloseSession step_def on_close_session_def pty_do_def split: option.split)
next
  case (Input c s data now wt)
  show ?thesis using l
    by (rule live_as_frame)
       (simp_all add: Input step_def on_input_def Let_def pty_do_def
          split: option.split prod.split)
next
  case (ResizeRequest c s cols rows rt)
  show ?thesis using l
    by (rule live_as_frame)
       (simp_all add: ResizeRequest step_def on_resize_def Let_def pty_do_def split: option.split)
next
  case (Disconnect c)
  show ?thesis using l
    by (rule live_as_frame) (simp_all add: Disconnect step_def on_disconnect_def)
next
  case (PtyData r' d)
  show ?thesis using l
    by (rule live_as_frame)
       (simp_all add: PtyData step_def on_pty_data_def Let_def io_to_emit_def)
next
  case (StartupTimer r' wt)
  show ?thesis using l
    by (rule live_as_frame)
       (simp_all add: StartupTimer step_def on_startup_timer_def pty_do_def)
qed

lemma run_live_as:
  "live_as sv sid r nm \<Longrightarrow> list_all (\<lambda>e. e \<noteq> PtyExit r \<and> uuid_of e \<noteq> Some sid) evs \<Longrightarrow>
   live_as (run sv evs) sid r nm"
  unfolding run_def by (induction evs arbitrary: sv) (simp_all add: step_live_as)

lemma live_as_listed: "live_as sv sid r nm \<Longrightarrow> (sid, nm) \<in> set (listSessions sv)"
  by (force simp: live_as_def listSessions_def dest: map_of_SomeD)

lemma live_as_subscribable:
  assumes "live_as sv sid r nm" "map_of (sockets sv) c = Some sk"
  shows "\<exists>sk'. map_of (sockets (step sv (SwitchSession c sid))) c = Some sk' \<and> sid \<in> set (rooms sk')"
  using assms
  by (auto simp: live_as_def step_def on_switch_session_def Let_def socket_emit_def
      map_of_emit_to map_of_update_socket)

lemma run_appended_quiet:
  assumes "map_of (sockets sv) k = Some sk" "Disconnect k \<notin> set evs"
    "live_as sv sid r nm" "list_all (\<lambda>e. e \<noteq> PtyExit r \<and> uuid_of e \<noteq> Some sid) evs"
  shows "\<exists>new. appended sv (run sv evs) k new \<and> (\<forall>n. SessionClosed sid n \<notin> set new)"
  using assms
proof (induction evs arbitrary: sv sk)
  case Nil
  have "appended sv sv k []" using Nil.prems(1) by (rule appended_same) simp
  then show ?case by (auto simp: run_def)
next
  case (Cons e evs)
  have e: "e \<noteq> Disconnect k" "e \<noteq> PtyExit r" "uuid_of e \<noteq> Some sid"
    using Cons.prems by auto
  obtain new1 where n1: "appended sv (step sv e) k new1" "closed_only_by_exit sv e new1"
    using step_appended[OF Cons.prems(1) e(1)] by blast
  have c1: "\<forall>n. SessionClosed sid n \<notin> set new1"
  proof (intro allI notI)
    fix n assume "SessionClosed sid n \<in> set new1"
    then obtain r' where "e = PtyExit r'" "r' < next_ref sv" "sid = session_id (heap sv r')"
      using n1(2) by (auto simp: closed_only_by_exit_def)
    then have "e = PtyExit r" using Cons.prems(3) by (auto simp: live_as_def)
    then show False using e(2) by simp
  qed
  obtain sk1 where k1: "map_of (sockets (step sv e)) k = Some sk1"
    using appended_connected[OF n1(1)] by blast
  have l1: "live_as (step sv e) sid r nm" using Cons.prems(3) e(2,3) by (rule step_live_as)
  obtain new2 where n2: "appended (step sv e) (run (step sv e) evs) k new2"
    "\<forall>n. SessionClosed sid n \<notin> set new2"
    using Cons.IH[OF k1 _ l1] Cons.prems(2,4) by auto
  have "appended sv (run sv (e # evs)) k (new1 @ new2)"
    using appended_trans[OF n1(1) n2(1)] by (simp add: run_def)
  then show ?case using c1 n2(2) by (intro exI[of _ "new1 @ new2"]) auto
qed

lemma close_step:
  "sessions (step sv (CloseSession c sid kt)) = sessions sv
   \<and> sockets (step sv (CloseSession c sid kt)) = sockets sv
   \<and> next_ref (step sv (CloseSession c sid kt)) = next_ref sv"
  by (simp add: step_def on_close_session_def split: option.split)

lemma outboxes_emit_all:
  "outboxes (io_emit ev sv) = map (\<lambda>(k, ob). (k, ob @ [ev])) (outboxes sv)"
  by (simp add: outboxes_def io_emit_def emit_to_def case_prod_unfold)

lemma exit_step:
  assumes "live_as sv sid r nm"
  shows "map_of (sessions (step sv (PtyExit r))) sid = None
       \<and> outboxes (step sv (PtyExit r)) = map (\<lambda>(k, ob). (k, ob @ [SessionClosed sid nm])) (outboxes sv)"
proof -
  have r: "r < next_ref sv" "session_id (heap sv r) = sid" "name (heap sv r) = nm"
    using assms by (simp_all add: live_as_def)
  have "step sv (PtyExit r) =
      io_emit (SessionClosed sid nm) (sv\<lparr>sessions := AList.delete sid (sessions sv)\<rparr>)"
    using r by (simp add: step_def on_pty_exit_def Let_def)
  moreover have "outboxes (sv\<lparr>sessions := AList.delete sid (sessions sv)\<rparr>) = outboxes sv"
    by (simp add: outboxes_def)
  moreover have "sessions (io_emit (SessionClosed sid nm) (sv\<lparr>sessions := AList.delete sid (sessions sv)\<rparr>))
      = AList.delete sid (sessions sv)"
    by (simp add: io_emit_def)
  ultimately show ?thesis
    by (simp add: outboxes_emit_all delete_conv')
qed

text \<open>
  Claim C7.  Let \<open>sid\<close> be registered (to the session object \<open>r\<close>, named \<open>nm\<close>).  A
  \<open>close-session\<close> request changes neither the registry nor any socket.  After it, and after
  any further events among which the pseudo-terminal of \<open>r\<close> does not exit (and no new
  session draws the same uuid), \<open>sid\<close> is still registered to \<open>r\<close> and listed with its name,
  every connected socket that switches to it is put into its room, and no \<open>session-closed\<close>
  event for \<open>sid\<close> has been emitted to a socket that stayed connected.  When the exit
  callback of \<open>r\<close> then runs, \<open>sid\<close> is removed from the registry and \<open>session-closed\<close> is
  emitted to every connected socket.
\<close>

theorem close_session_is_two_phase:
  assumes "live_as sv sid r nm"
    and "list_all (\<lambda>e. e \<noteq> PtyExit r \<and> uuid_of e \<noteq> Some sid) evs"
  shows "sessions (step sv (CloseSession c sid kill_throws)) = sessions sv
     \<and> sockets (step sv (CloseSession c sid kill_throws)) = sockets sv
     \<and> (let sv1 = run (step sv (CloseSession c sid kill_throws)) evs in
          map_of (sessions sv1) sid = Some r
        \<and> (sid, nm) \<in> set (listSessions sv1)
        \<and> (\<forall>k sk. map_of (sockets sv1) k = Some sk \<longrightarrow>
              (\<exists>sk'. map_of (sockets (step sv1 (SwitchSession k sid))) k = Some sk'
                    \<and> sid \<in> set (rooms sk')))
        \<and> (\<forall>k sk. map_of (sockets sv) k = Some sk \<and> Disconnect k \<notin> set evs \<longrightarrow>
              (\<exists>new. appended sv sv1 k new \<and> (\<forall>n. SessionClosed sid n \<notin> set new)))
        \<and> map_of (sessions (step sv1 (PtyExit r))) sid = None
        \<and> outboxes (step sv1 (PtyExit r)) =
             map (\<lambda>(k, ob). (k, ob @ [SessionClosed sid nm])) (outboxes sv1))"
proof -
  let ?sv0 = "step sv (CloseSession c sid kill_throws)"
  let ?sv1 = "run ?sv0 evs"
  have l0: "live_as ?sv0 sid r nm"
    using assms(1) by (rule step_live_as) simp_all
  have l1: "live_as ?sv1 sid r nm" using l0 assms(2) by (rule run_live_as)
  have a: "map_of (sessions ?sv1) sid = Some r" using l1 by (simp add: live_as_def)
  have b: "(sid, nm) \<in> set (listSessions ?sv1)" using l1 by (rule live_as_listed)
  have s: "\<forall>k sk. map_of (sockets ?sv1) k = Some sk \<longrightarrow>
      (\<exists>sk'. map_of (sockets (step ?sv1 (SwitchSession k sid))) k = Some sk' \<and> sid \<in> set (rooms sk'))"
    using live_as_subscribable[OF l1] by blast
  have q: "\<forall>k sk. map_of (sockets sv) k = Some sk \<and> Disconnect k \<notin> set evs \<longrightarrow>
      (\<exists>new. appended sv ?sv1 k new \<and> (\<forall>n. SessionClosed sid n \<notin> set new))"
  proof (intro allI impI)
    fix k sk assume h: "map_of (sockets sv) k = Some sk \<and> Disconnect k \<notin> set evs"
    then have k0: "map_of (sockets ?sv0) k = Some sk" by (simp add: close_step)
    from run_appended_quiet[OF k0 _ l0 assms(2)] h
    obtain new where "appended ?sv0 ?sv1 k new" "\<forall>n. SessionClosed sid n \<notin> set new" by blast
    moreover have "appended sv ?sv0 k []" using h by (intro appended_same) (simp_all add: close_step)
    ultimately have "appended sv ?sv1 k new" "\<forall>n. SessionClosed sid n \<notin> set new"
      using appended_trans by fastforce+
    then show "\<exists>new. appended sv ?sv1 k new \<and> (\<forall>n. SessionClosed sid n \<notin> set new)" by blast
  qed
  show ?thesis
    unfolding Let_def using a b s q exit_step[OF l1] by (simp add: close_step)
qed

text \<open>
  A client asks to close the only session; the session stays listed while output still
  arrives, and is removed and announced closed when its pseudo-terminal exits.
\<close>

theorem close_session_witness:
  "listSessions (run (step (run init_server [Startup ''s1'' True of_nat, Connection ''c1'' 0])
                           (CloseSession ''c1'' ''s1'' False)) [PtyData 0 [104] ])
     = [(''s1'', ''Session 1'')]
   \<and> map_of (sessions (run (step (run init_server [Startup ''s1'' True of_nat, Connection ''c1'' 0])
                           (CloseSession ''c1'' ''s1'' False)) [PtyData 0 [104] ])) ''s1'' = Some 0
   \<and> map_of (sessions (step (run (step (run init_server
          [Startup ''s1'' True of_nat, Connection ''c1'' 0])
          (CloseSession ''c1'' ''s1'' False)) [PtyData 0 [104] ]) (PtyExit 0))) ''s1'' = None
   \<and> outboxes (step (run (step (run init_server
          [Startup ''s1'' True of_nat, Connection ''c1'' 0])
          (CloseSession ''c1'' ''s1'' False)) [PtyData 0 [104] ]) (PtyExit 0))
     = [(''c1'', [SessionsList [(''s1'', ''Session 1'')], SessionClosed ''s1'' ''Session 1''])]"
proof -
  let ?sv = "run init_server [Startup ''s1'' True of_nat, Connection ''c1'' 0]"
  let ?sv1 = "run (step ?sv (CloseSession ''c1'' ''s1'' False)) [PtyData 0 [104] ]"
  have l: "live_as ?sv ''s1'' 0 ''Session 1''"
    by (simp add: live_as_def model_defs show_nat_examples)
  have q: "list_all (\<lambda>e. e \<noteq> PtyExit 0 \<and> uuid_of e \<noteq> Some ''s1'') [PtyData 0 [104] ]"
    by simp
  have ob: "outboxes ?sv1 = [(''c1'', [SessionsList [(''s1'', ''Session 1'')] ])]"
    and ls: "listSessions ?sv1 = [(''s1'', ''Session 1'')]"
    by (simp_all add: model_defs show_nat_examples)
  from close_session_is_two_phase[OF l q, of "''c1''" False]
  have "map_of (sessions ?sv1) ''s1'' = Some 0"
    and "map_of (sessions (step ?sv1 (PtyExit 0))) ''s1'' = None"
    and "outboxes (step ?sv1 (PtyExit 0)) =
             map (\<lambda>(k, ob). (k, ob @ [SessionClosed ''s1'' ''Session 1''])) (outboxes ?sv1)"
    unfolding Let_def by blast+
  then show ?thesis using ls by (simp add: ob)
qed

section \<open>History before live output\<close>

lemma run_appended:
  assumes "map_of (sockets sv) k = Some sk" "Disconnect k \<notin> set evs"
  shows "\<exists>new. appended sv (run sv evs) k new"
  using assms
proof (induction evs arbitrary: sv sk)
  case Nil
  have "appended sv sv k []" using Nil.prems(1) by (rule appended_same) simp
  then show ?case by (auto simp: run_def)
next
  case (Cons e evs)
  have e: "e \<noteq> Disconnect k" using Cons.prems by auto
  obtain new1 where n1: "appended sv (step sv e) k new1"
    using step_appended[OF Cons.prems(1) e] by blast
  obtain sk1 where k1: "map_of (sockets (step sv e)) k = Some sk1"
    using appended_connected[OF n1] by blast
  obtain new2 where n2: "appended (step sv e) (run (step sv e) evs) k new2"
    using Cons.IH[OF k1] Cons.prems(2) by auto
  have "appended sv (run sv (e # evs)) k (new1 @ new2)"
    using appended_trans[OF n1 n2] by (simp add: run_def)
  then show ?case by blast
qed

lemma switch_step:
  assumes "map_of (sockets sv) c = Some sk" "map_of (sessions sv) sid = Some r"
    "RingBuffer_toString (history (heap sv r)) \<noteq> []"
  shows "map_of (sockets (step sv (SwitchSession c sid))) c =
      Some (sk\<lparr>rooms := (if sid \<in> set (filter (\<lambda>room. room = c) (rooms sk))
                           then filter (\<lambda>room. room = c) (rooms sk)
                           else filter (\<lambda>room. room = c) (rooms sk) @ [sid]),
                 outbox := outbox sk @ [History (RingBuffer_toString (history (heap sv r)))]\<rparr>)"
    and "heap (step sv (SwitchSession c sid)) = heap sv"
    and "next_ref (step sv (SwitchSession c sid)) = next_ref sv"
  using assms
  by (auto simp: step_def on_switch_session_def Let_def socket_emit_def
      map_of_emit_to map_of_update_socket)

lemma data_step:
  assumes "r < next_ref sv"
  shows "heap (step sv (PtyData r d)) =
      (heap sv)(r := (heap sv r)\<lparr>history := RingBuffer_append (history (heap sv r)) d\<rparr>)"
    and "next_ref (step sv (PtyData r d)) = next_ref sv"
    and "map_of (sockets (step sv (PtyData r d))) k =
      map_option (\<lambda>sk. if session_id (heap sv r) \<in> set (rooms sk)
                        then sk\<lparr>outbox := outbox sk @ [Output d]\<rparr> else sk)
        (map_of (sockets sv) k)"
  using assms
  by (simp_all add: step_def on_pty_data_def Let_def io_to_emit_def map_of_emit_to)

lemma data_run:
  assumes "r < next_ref sv" "map_of (sockets sv) k = Some sk"
  shows "appended sv (run sv (map (PtyData r) ds)) k
           (if session_id (heap sv r) \<in> set (rooms sk) then map Output ds else [])
       \<and> history (heap (run sv (map (PtyData r) ds)) r) =
           foldl RingBuffer_append (history (heap sv r)) ds"
  using assms
proof (induction ds arbitrary: sv sk)
  case Nil
  then show ?case by (simp add: run_def appended_def)
next
  case (Cons d ds)
  let ?sv1 = "step sv (PtyData r d)"
  let ?in = "session_id (heap sv r) \<in> set (rooms sk)"
  let ?sk1 = "if ?in then sk\<lparr>outbox := outbox sk @ [Output d]\<rparr> else sk"
  have k1: "map_of (sockets ?sv1) k = Some ?sk1"
    using Cons.prems by (simp add: data_step)
  have r1: "r < next_ref ?sv1" using Cons.prems by (simp add: data_step)
  have id1: "session_id (heap ?sv1 r) = session_id (heap sv r)"
    "history (heap ?sv1 r) = RingBuffer_append (history (heap sv r)) d"
    using Cons.prems by (simp_all add: data_step)
  have rooms1: "rooms ?sk1 = rooms sk" by simp
  have a1: "appended sv ?sv1 k (if ?in then [Output d] else [])"
    using Cons.prems(2) k1 by (simp add: appended_def)
  from Cons.IH[OF r1 k1]
  have a2: "appended ?sv1 (run ?sv1 (map (PtyData r) ds)) k (if ?in then map Output ds else [])"
    and h2: "history (heap (run ?sv1 (map (PtyData r) ds)) r) =
        foldl RingBuffer_append (RingBuffer_append (history (heap sv r)) d) ds"
    unfolding id1 rooms1 by simp_all
  have "appended sv (run ?sv1 (map (PtyData r) ds)) k
      ((if ?in then [Output d] else []) @ (if ?in then map Output ds else []))"
    using a1 a2 by (rule appended_trans)
  then show ?case using h2 by (auto simp: run_def)
qed

lemma history_then_output_general:
  assumes "map_of (sockets sv) c = Some sk" and "map_of (sessions sv) sid = Some r"
    and "RingBuffer_toString (history (heap sv r)) \<noteq> []"
    and "r < next_ref sv" and "session_id (heap sv r) = sid"
    and "Disconnect c \<notin> set evs"
  shows "appended sv (step sv (SwitchSession c sid)) c
           [History (RingBuffer_toString (history (heap sv r)))]
     \<and> (\<exists>later. appended sv (run (step sv (SwitchSession c sid)) evs) c
           (History (RingBuffer_toString (history (heap sv r))) # later))
     \<and> appended sv (run (step sv (SwitchSession c sid)) (map (PtyData r) ds)) c
           (History (RingBuffer_toString (history (heap sv r))) # map Output ds)
     \<and> history (heap (run (step sv (SwitchSession c sid)) (map (PtyData r) ds)) r) =
           foldl RingBuffer_append (history (heap sv r)) ds
     \<and> (\<forall>k skk. map_of (sockets (step sv (SwitchSession c sid))) k = Some skk \<longrightarrow>
           appended (step sv (SwitchSession c sid))
             (run (step sv (SwitchSession c sid)) (map (PtyData r) ds)) k
             (if sid \<in> set (rooms skk) then map Output ds else []))"
proof -
  let ?h = "RingBuffer_toString (history (heap sv r))"
  let ?sv1 = "step sv (SwitchSession c sid)"
  note sw = switch_step[OF assms(1,2,3)]
  obtain sk1 where k1: "map_of (sockets ?sv1) c = Some sk1" and in1: "sid \<in> set (rooms sk1)"
    and o1: "outbox sk1 = outbox sk @ [History ?h]"
    using sw(1) by (cases "sid \<in> set (filter (\<lambda>room. room = c) (rooms sk))") auto
  have a1: "appended sv ?sv1 c [History ?h]"
    using assms(1) k1 o1 by (simp add: appended_def)
  obtain new where "appended ?sv1 (run ?sv1 evs) c new"
    using run_appended[OF k1 assms(6)] by blast
  then have a2: "appended sv (run ?sv1 evs) c (History ?h # new)"
    using appended_trans[OF a1] by fastforce
  have r1: "r < next_ref ?sv1" "session_id (heap ?sv1 r) = sid" "history (heap ?sv1 r) = history (heap sv r)"
    using assms(4,5) by (simp_all add: sw)
  from data_run[OF r1(1) k1, of ds]
  have a3: "appended ?sv1 (run ?sv1 (map (PtyData r) ds)) c (map Output ds)"
    and h3: "history (heap (run ?sv1 (map (PtyData r) ds)) r) = foldl RingBuffer_append (history (heap sv r)) ds"
    using in1 by (simp_all add: r1)
  have "appended sv (run ?sv1 (map (PtyData r) ds)) c ([History ?h] @ map Output ds)"
    using a1 a3 by (rule appended_trans)
  moreover have "\<forall>k skk. map_of (sockets ?sv1) k = Some skk \<longrightarrow>
      appended ?sv1 (run ?sv1 (map (PtyData r) ds)) k
        (if sid \<in> set (rooms skk) then map Output ds else [])"
    using data_run[OF r1(1), of _ _ ds] by (simp add: r1)
  ultimately show ?thesis using a1 a2 h3 by auto
qed

lemma keys_inv_frame:
  assumes "keys_inv sv" "sessions sv' = sessions sv" "next_ref sv' = next_ref sv"
    "\<And>r. session_id (heap sv' r) = session_id (heap sv r)"
  shows "keys_inv sv'"
  using assms by (simp add: keys_inv_def)

lemma list_all_update_entry:
  "list_all P xs \<Longrightarrow> P (k, v) \<Longrightarrow> list_all P (AList.update k v xs)"
  by (induction xs) auto

lemma createSession_keys_inv:
  assumes "keys_inv sv"
  shows "keys_inv (snd (createSession sv isInitial uuid spawn_ok garbage))"
proof (cases spawn_ok)
  case False
  then show ?thesis using assms by (simp add: createSession_def)
next
  case True
  let ?sv' = "snd (createSession sv isInitial uuid spawn_ok garbage)"
  have h: "next_ref ?sv' = Suc (next_ref sv)"
    "sessions ?sv' = AList.update uuid (next_ref sv) (sessions sv)"
    "\<And>x. x < next_ref sv \<Longrightarrow> heap ?sv' x = heap sv x"
    "session_id (heap ?sv' (next_ref sv)) = uuid"
    using True by (simp_all add: createSession_def Let_def io_emit_def)
  have "list_all (\<lambda>(k, r). r < next_ref ?sv' \<and> session_id (heap ?sv' r) = k) (sessions sv)"
    using assms h by (auto simp: keys_inv_def list_all_iff)
  then have "list_all (\<lambda>(k, r). r < next_ref ?sv' \<and> session_id (heap ?sv' r) = k)
      (AList.update uuid (next_ref sv) (sessions sv))"
    by (rule list_all_update_entry) (simp add: h)
  then show ?thesis by (simp add: keys_inv_def h(2))
qed

lemma step_keys_inv:
  assumes "keys_inv sv"
  shows "keys_inv (step sv e)"
proof (cases e)
  case (Startup uuid ok g)
  then show ?thesis using assms createSession_keys_inv[OF assms]
    by (simp add: step_def on_startup_def)
next
  case (CreateSession c cb uuid ok g)
  obtain res sv1 where cs: "createSession sv False uuid ok g = (res, sv1)"
    by (cases "createSession sv False uuid ok g")
  then have "keys_inv sv1" using createSession_keys_inv[OF assms, of False uuid ok g] by simp
  moreover have "keys_inv (socket_emit c ev sv1)" if "keys_inv sv1" for ev
    using that by (rule keys_inv_frame) (simp_all add: socket_emit_def)
  ultimately show ?thesis using assms
    by (simp add: CreateSession step_def on_create_session_def cs split: option.split)
next
  case (PtyExit r)
  show ?thesis
  proof (cases "r < next_ref sv")
    case False
    then show ?thesis using assms by (simp add: PtyExit step_def on_pty_exit_def)
  next
    case True
    have "sessions (step sv e) = AList.delete (session_id (heap sv r)) (sessions sv)"
      "next_ref (step sv e) = next_ref sv" "heap (step sv e) = heap sv"
      using True by (simp_all add: PtyExit step_def on_pty_exit_def Let_def io_emit_def)
    then show ?thesis using assms by (simp add: keys_inv_def list_all_delete)
  qed
next
  case (Connection c now)
  show ?thesis using assms
    by (rule keys_inv_frame)
       (simp_all add: Connection step_def on_connection_def Let_def split: option.split)
next
  case (SwitchSession c sid)
  show ?thesis using assms
    by (rule keys_inv_frame)
       (simp_all add: SwitchSession step_def on_switch_session_def Let_def socket_emit_def
          split: option.split)
next
  case (CloseSession c sid kt)
  show ?thesis using assms
    by (rule keys_inv_frame)
       (simp_all add: CloseSession step_def on_close_session_def pty_do_def split: option.split)
next
  case (Input c sid data now wt)
  show ?thesis using assms
    by (rule keys_inv_frame)
       (simp_all add: Input step_def on_input_def Let_def pty_do_def
          split: option.split prod.split)
next
  case (ResizeRequest c sid cols rows rt)
  show ?thesis using assms
    by (rule keys_inv_frame)
       (simp_all add: ResizeRequest step_def on_resize_def Let_def pty_do_def split: option.split)
next
  case (Disconnect c)
  show ?thesis using assms
    by (rule keys_inv_frame) (simp_all add: Disconnect step_def on_disconnect_def)
next
  case (PtyData r d)
  show ?thesis using assms
    by (rule keys_inv_frame)
       (simp_all add: PtyData step_def on_pty_data_def Let_def io_to_emit_def)
next
  case (StartupTimer r wt)
  show ?thesis using assms
    by (rule keys_inv_frame)
       (simp_all add: StartupTimer step_def on_startup_timer_def pty_do_def)
qed

lemma run_keys_inv: "keys_inv sv \<Longrightarrow> keys_inv (run sv evs)"
  unfolding run_def by (induction evs arbitrary: sv) (simp_all add: step_keys_inv)

lemma reachable_keys:
  assumes "map_of (sessions (run init_server evs)) sid = Some r"
  shows "r < next_ref (run init_server evs) \<and> session_id (heap (run init_server evs) r) = sid"
proof -
  have "keys_inv init_server" by (simp add: keys_inv_def init_server_def)
  then have "keys_inv (run init_server evs)" by (rule run_keys_inv)
  then show ?thesis using map_of_SomeD[OF assms] by (auto simp: keys_inv_def list_all_iff)
qed

text \<open>
  Claim C6.  In a state the server has reached, let a connected socket \<open>c\<close> switch to a
  registered session whose history is not empty.  The switch emits to \<open>c\<close> exactly one
  event, the snapshot of the whole current history.  Whatever events follow while \<open>c\<close>
  stays connected, the outbox of \<open>c\<close> is its former outbox, then that snapshot, then what
  was emitted later: every later event, live output included, comes after the snapshot.
  When the session's pseudo-terminal then emits the chunks \<open>ds\<close> one after the other, they are
  appended to the history in this order, \<open>c\<close> receives after the snapshot exactly one
  \<open>output\<close> event per chunk in this order, and so does every other socket in the session's
  room, while the sockets outside the room receive nothing.
\<close>

theorem history_precedes_live_output:
  assumes "sv = run init_server before"
    and "map_of (sockets sv) c = Some sk" and "map_of (sessions sv) sid = Some r"
    and "RingBuffer_toString (history (heap sv r)) \<noteq> []"
    and "Disconnect c \<notin> set evs"
  shows "appended sv (step sv (SwitchSession c sid)) c
           [History (RingBuffer_toString (history (heap sv r)))]
     \<and> (\<exists>later. appended sv (run (step sv (SwitchSession c sid)) evs) c
           (History (RingBuffer_toString (history (heap sv r))) # later))
     \<and> appended sv (run (step sv (SwitchSession c sid)) (map (PtyData r) ds)) c
           (History (RingBuffer_toString (history (heap sv r))) # map Output ds)
     \<and> history (heap (run (step sv (SwitchSession c sid)) (map (PtyData r) ds)) r) =
           foldl RingBuffer_append (history (heap sv r)) ds
     \<and> (\<forall>k skk. map_of (sockets (step sv (SwitchSession c sid))) k = Some skk \<longrightarrow>
           appended (step sv (SwitchSession c sid))
             (run (step sv (SwitchSession c sid)) (map (PtyData r) ds)) k
             (if sid \<in> set (rooms skk) then map Output ds else []))"
proof -
  have "r < next_ref sv \<and> session_id (heap sv r) = sid"
    using reachable_keys[of before sid r] assms(1,3) by simp
  then show ?thesis
    using history_then_output_general[OF assms(2,3,4) _ _ assms(5), of ds] by blast
qed

lemma history_limit_pos: "1 \<le> HISTORY_LIMIT"
  by (simp add: HISTORY_LIMIT_def)

text \<open>
  The history holds \<open>A\<close> when the client subscribes, then \<open>B\<close> arrives: the client is sent
  the session list, the history \<open>A\<close> and then the output \<open>B\<close>.
\<close>

theorem history_precedes_live_output_witness:
  "map_option outbox (map_of (sockets (run init_server
       [Startup ''s1'' True of_nat, Connection ''c1'' 0, PtyData 0 [65],
        SwitchSession ''c1'' ''s1'', PtyData 0 [66] ])) ''c1'')
     = Some [SessionsList [(''s1'', ''Session 1'')], History [65], Output [66] ]"
proof -
  let ?sv = "run init_server [Startup ''s1'' True of_nat, Connection ''c1'' 0, PtyData 0 [65] ]"
  let ?sk = "\<lparr>rooms = [''c1''], bucket = createBucket 32768 16384 0,
              outbox = [SessionsList [(''s1'', ''Session 1'')] ]\<rparr>"
  have a: "map_of (sockets ?sv) ''c1'' = Some ?sk"
    by (simp add: model_defs show_nat_examples)
  have b: "map_of (sessions ?sv) ''s1'' = Some 0"
    by (simp add: model_defs show_nat_examples)
  have h: "history (heap ?sv 0) = RingBuffer_append (RingBuffer_new of_nat HISTORY_LIMIT) [65]"
    by (simp add: model_defs show_nat_examples)
  have t: "RingBuffer_toString (history (heap ?sv 0)) = [65]"
    unfolding h using history_limit_pos by (intro toString_first_chunk) simp
  have c: "RingBuffer_toString (history (heap ?sv 0)) \<noteq> []" by (simp add: t)
  have f: "Disconnect ''c1'' \<notin> set [PtyData 0 [66] ]" by simp
  have r: "run init_server [Startup ''s1'' True of_nat, Connection ''c1'' 0, PtyData 0 [65],
        SwitchSession ''c1'' ''s1'', PtyData 0 [66] ]
      = run (step ?sv (SwitchSession ''c1'' ''s1'')) (map (PtyData 0) [ [66] ])"
    by (simp add: run_def)
  from history_precedes_live_output[OF refl a b c f, of "[ [66] ]"]
  have "appended ?sv (run (step ?sv (SwitchSession ''c1'' ''s1'')) (map (PtyData 0) [ [66] ])) ''c1''
      (History [65] # map Output [ [66] ])"
    unfolding t by blast
  then show ?thesis
    unfolding r using a by (auto simp: appended_def split: option.splits)
qed

end
